theory Spec2Isabelle
  imports Main
begin

section \<open>Errors\<close>

text \<open>
  Every \<^verbatim>\<open>raise\<close> of \<^verbatim>\<open>generate_source.py\<close> and every exception that escapes
  from an attribute access, an index, a dictionary lookup or a tuple unpacking is a value
  of this type. \<open>GenerateSourceException\<close> carries the message of the source.
  \<open>SyntaxError\<close> is the exception of \<^verbatim>\<open>parse\<close> on a text that is no program.
\<close>

datatype error =
    GenerateSourceException string
  | AttributeError
  | IndexError
  | KeyError
  | ValueError
  | TypeError
  | AssertionError
  | SyntaxError

section \<open>Syntax trees\<close>

text \<open>
  The part of the \<^verbatim>\<open>typed_ast.ast3\<close> node classes that the functions below build or
  inspect. A source text is represented by the module it parses to: \<^verbatim>\<open>horast.parse\<close>,
  \<^verbatim>\<open>horast.unparse\<close> and \<^verbatim>\<open>autopep8\<close> are libraries outside the repository.
  Statements that own statement lists are \<open>FunctionDef\<close>, \<open>ClassDef\<close>, \<open>While\<close> and
  \<open>If_stmt\<close>; the other compound statements of Python are outside the model.
\<close>

datatype expr_context = Load | Store

datatype singleton = PyTrue | PyFalse | PyNone

datatype expr =
    Name string expr_context
  | Attribute expr string expr_context
  | Call expr "expr list" "(string option \<times> expr) list"
  | Str string
  | NameConstant singleton
  | Subscript expr expr expr_context
  | Compare expr "expr list"

datatype arg = arg (arg_of: string) (annotation: "expr option")

datatype arguments =
  arguments (args: "arg list") (vararg: "arg option") (kwonlyargs: "arg list") (kwarg: "arg option")

datatype import_alias = import_alias (alias_name: string) (asname: "string option")

datatype stmt =
    FunctionDef string arguments "stmt list" "expr list" "expr option"
  | ClassDef string "expr list" "stmt list" "expr list"
  | While expr "stmt list" "stmt list"
  | If_stmt expr "stmt list" "stmt list"
  | Assign "expr list" expr
  | AnnAssign expr expr "expr option"
  | ImportFrom "string option" "import_alias list" nat
  | Expr expr
  | Pass

type_synonym Module = "stmt list"

section \<open>Identifiers\<close>

subsection \<open>\<^verbatim>\<open>convert_cc\<close>\<close>

text \<open>
  \<^verbatim>\<open>convert_cc\<close> is imported from \<^verbatim>\<open>arcor2.helpers\<close>, where the function is
  \<^verbatim>\<open>camel_case_to_snake_case\<close>: two regular-expression substitutions and
  \<^verbatim>\<open>lower()\<close>. A string is a list of characters with code points below 256. The
  classes \<^verbatim>\<open>[A-Z]\<close>, \<^verbatim>\<open>[a-z]\<close> and \<^verbatim>\<open>[0-9]\<close> of the expressions are the ASCII
  ones; \<^verbatim>\<open>lower()\<close> also maps the capital letters of the range \<^verbatim>\<open>0xC0\<close> to
  \<^verbatim>\<open>0xDE\<close> (the sign \<^verbatim>\<open>0xD7\<close> apart) to the letters 32 places above them, and
  every other character below 256 to itself.
\<close>

definition is_upper :: "char \<Rightarrow> bool" where
  "is_upper c = (c \<in> set ''ABCDEFGHIJKLMNOPQRSTUVWXYZ'')"

definition is_lower :: "char \<Rightarrow> bool" where
  "is_lower c = (c \<in> set ''abcdefghijklmnopqrstuvwxyz'')"

definition is_digit :: "char \<Rightarrow> bool" where
  "is_digit c = (c \<in> set ''0123456789'')"

definition lower_table :: "(char \<times> char) list" where
  "lower_table =
     zip (''ABCDEFGHIJKLMNOPQRSTUVWXYZ'' @
       [CHR 0xC0, CHR 0xC1, CHR 0xC2, CHR 0xC3, CHR 0xC4, CHR 0xC5, CHR 0xC6, CHR 0xC7,
        CHR 0xC8, CHR 0xC9, CHR 0xCA, CHR 0xCB, CHR 0xCC, CHR 0xCD, CHR 0xCE, CHR 0xCF,
        CHR 0xD0, CHR 0xD1, CHR 0xD2, CHR 0xD3, CHR 0xD4, CHR 0xD5, CHR 0xD6, CHR 0xD8,
        CHR 0xD9, CHR 0xDA, CHR 0xDB, CHR 0xDC, CHR 0xDD, CHR 0xDE])
      (''abcdefghijklmnopqrstuvwxyz'' @
       [CHR 0xE0, CHR 0xE1, CHR 0xE2, CHR 0xE3, CHR 0xE4, CHR 0xE5, CHR 0xE6, CHR 0xE7,
        CHR 0xE8, CHR 0xE9, CHR 0xEA, CHR 0xEB, CHR 0xEC, CHR 0xED, CHR 0xEE, CHR 0xEF,
        CHR 0xF0, CHR 0xF1, CHR 0xF2, CHR 0xF3, CHR 0xF4, CHR 0xF5, CHR 0xF6, CHR 0xF8,
        CHR 0xF9, CHR 0xFA, CHR 0xFB, CHR 0xFC, CHR 0xFD, CHR 0xFE])"

definition lower_char :: "char \<Rightarrow> char" where
  "lower_char c = (case map_of lower_table c of None \<Rightarrow> c | Some l \<Rightarrow> l)"

text \<open>
  \<^verbatim>\<open>_first_cap_re.sub(r'\1_\2', s)\<close> with \<^verbatim>\<open>_first_cap_re = '(.)([A-Z][a-z]+)'\<close>:
  the scan goes from left to right, a match consumes the whole run of lower-case letters,
  and \<^verbatim>\<open>.\<close> matches every character but the newline.
\<close>

function first_cap_sub :: "string \<Rightarrow> string" where
  "first_cap_sub (c # u # l # rest) =
     (if c \<noteq> CHR 0x0A \<and> is_upper u \<and> is_lower l
      then c # CHR ''_'' # u # l # takeWhile is_lower rest @ first_cap_sub (dropWhile is_lower rest)
      else c # first_cap_sub (u # l # rest))"
| "first_cap_sub [c, u] = [c, u]"
| "first_cap_sub [c] = [c]"
| "first_cap_sub [] = []"
  by pat_completeness auto
termination
  by (relation "measure length") (auto simp: le_imp_less_Suc length_dropWhile_le less_SucI)

text \<open>\<^verbatim>\<open>_all_cap_re.sub(r'\1_\2', s)\<close> with \<^verbatim>\<open>_all_cap_re = '([a-z0-9])([A-Z])'\<close>.\<close>

fun all_cap_sub :: "string \<Rightarrow> string" where
  "all_cap_sub (a # b # rest) =
     (if (is_lower a \<or> is_digit a) \<and> is_upper b
      then a # CHR ''_'' # b # all_cap_sub rest
      else a # all_cap_sub (b # rest))"
| "all_cap_sub s = s"

definition convert_cc :: "string \<Rightarrow> string" where
  "convert_cc name = map lower_char (all_cap_sub (first_cap_sub name))"

subsection \<open>\<^verbatim>\<open>fix_object_name\<close>\<close>

definition fix_object_name :: "string \<Rightarrow> string" where
  "fix_object_name object_id =
     map (\<lambda>c. if c = CHR '' '' then CHR ''_'' else c) (convert_cc object_id)"

subsection \<open>\<^verbatim>\<open>str.split\<close>\<close>

text \<open>\<^verbatim>\<open>s.split(sep)\<close> for a one-character separator: never an empty list.\<close>

fun split_on :: "char \<Rightarrow> string \<Rightarrow> string list" where
  "split_on sep [] = [[]]"
| "split_on sep (c # cs) =
     (if c = sep then [] # split_on sep cs
      else (case split_on sep cs of
              [] \<Rightarrow> [[c]]
            | p # ps \<Rightarrow> (c # p) # ps))"


subsection \<open>Names of a program text\<close>

text \<open>
  The names that the parser reads as one name: a letter or an underscore, followed by
  letters, digits and underscores, and no keyword. The test is the ASCII one and leaves
  out \<^verbatim>\<open>__debug__\<close>, which is no target of an assignment. \<open>dotted_name\<close> is
  the path of a module, and \<open>hyphen_name\<close> a string of such characters and hyphens with
  at least one hyphen, which the parser reads as a subtraction or not at all.
\<close>

definition is_letter :: "char \<Rightarrow> bool" where
  "is_letter c = (is_upper c \<or> is_lower c)"

definition reserved_words :: "string list" where
  "reserved_words =
     [''False'', ''None'', ''True'', ''and'', ''as'', ''assert'', ''async'', ''await'',
      ''break'', ''class'', ''continue'', ''def'', ''del'', ''elif'', ''else'', ''except'',
      ''finally'', ''for'', ''from'', ''global'', ''if'', ''import'', ''in'', ''is'',
      ''lambda'', ''nonlocal'', ''not'', ''or'', ''pass'', ''raise'', ''return'', ''try'',
      ''while'', ''with'', ''yield'', ''__debug__'']"

definition is_identifier :: "string \<Rightarrow> bool" where
  "is_identifier s =
     (case s of
        [] \<Rightarrow> False
      | c # cs \<Rightarrow>
          (is_letter c \<or> c = CHR ''_'') \<and>
          list_all (\<lambda>d. is_letter d \<or> is_digit d \<or> d = CHR ''_'') cs \<and>
          s \<notin> set reserved_words)"

definition dotted_name :: "string \<Rightarrow> bool" where
  "dotted_name m = list_all is_identifier (split_on CHR ''.'' m)"

definition hyphen_name :: "string \<Rightarrow> bool" where
  "hyphen_name n =
     (CHR ''-'' \<in> set n \<and>
      list_all (\<lambda>d. is_letter d \<or> is_digit d \<or> d = CHR ''_'' \<or> d = CHR ''-'') n)"
section \<open>Graph model\<close>

text \<open>
  Modelled from the spec: the data classes \<^verbatim>\<open>ActionIOEnum\<close>, \<^verbatim>\<open>ActionIO\<close>,
  \<^verbatim>\<open>Action\<close>, \<^verbatim>\<open>Project\<close>, \<^verbatim>\<open>SceneObject\<close> and \<^verbatim>\<open>Scene\<close> of
  \<^verbatim>\<open>arcor2.data\<close> are imported by \<^verbatim>\<open>generate_source.py\<close> and are not among the sources.
  A link endpoint is one of the two sentinels or the id of an action; its field is
  \<^verbatim>\<open>default\<close>, as the source reads it (\<^verbatim>\<open>act.outputs[0].default\<close>). The fields
  \<^verbatim>\<open>id\<close> and \<^verbatim>\<open>type\<close> carry a suffix here.
\<close>

datatype ActionIOEnum = FIRST | LAST

datatype ActionIO = ActionIO (default_io: "ActionIOEnum + string")

record Action =
  id_action :: string
  type_action :: string
  inputs :: "ActionIO list"
  outputs :: "ActionIO list"

record Project =
  id_project :: string
  actions :: "Action list"
  parameters :: "string list"

record SceneObject =
  id_object :: string
  type_object :: string

record Scene =
  objects :: "SceneObject list"

type_synonym actions_cache = "string \<rightharpoonup> Action"

subsection \<open>\<^verbatim>\<open>get_actions_cache\<close>\<close>

text \<open>
  Modelled from the spec: \<^verbatim>\<open>get_actions_cache\<close> is imported from \<^verbatim>\<open>arcor2.helpers\<close>
  and is not among the sources. From the spec: the action cache is the mapping from id to
  action, populated from the project; the emitter finds the action whose \<^verbatim>\<open>inputs[0]\<close>
  is \<^verbatim>\<open>FIRST\<close> and the action whose \<^verbatim>\<open>outputs[0]\<close> is \<^verbatim>\<open>LAST\<close> (the same action in a
  program of one action), and a missing one is reported as \<^verbatim>\<open>None\<close>, which
  \<^verbatim>\<open>add_logic_to_loop\<close> tests. The spec does not say what is reported for a project
  with several actions of one kind, which its first invariant excludes: here the actions
  are scanned in the order of the project and a later action replaces an earlier one. On a
  project with at most one action of each kind every scan reports the same ids.
\<close>

definition is_first :: "Action \<Rightarrow> bool" where
  "is_first act = (case inputs act of [] \<Rightarrow> False | io # ios \<Rightarrow> default_io io = Inl FIRST)"

definition is_last :: "Action \<Rightarrow> bool" where
  "is_last act = (case outputs act of [] \<Rightarrow> False | io # ios \<Rightarrow> default_io io = Inl LAST)"

fun cache_scan ::
  "Action list \<Rightarrow> actions_cache \<times> string option \<times> string option
     \<Rightarrow> actions_cache \<times> string option \<times> string option" where
  "cache_scan [] r = r"
| "cache_scan (act # acts) (actions_cache, first_action_id, last_action_id) =
     cache_scan acts
       (actions_cache(id_action act \<mapsto> act),
        (if is_first act then Some (id_action act) else first_action_id),
        (if is_last act then Some (id_action act) else last_action_id))"

definition get_actions_cache :: "Project \<Rightarrow> actions_cache \<times> string option \<times> string option" where
  "get_actions_cache project = cache_scan (actions project) (Map.empty, None, None)"

section \<open>Object-type inspection\<close>

subsection \<open>\<^verbatim>\<open>object_cls_def\<close>\<close>

text \<open>
  The loop over \<^verbatim>\<open>tree.body\<close> with its \<^verbatim>\<open>for ... else\<close>: the \<^verbatim>\<open>else\<close> branch runs
  when the loop ends without \<^verbatim>\<open>break\<close>. The second argument is the variable
  \<^verbatim>\<open>cls_def\<close>.
\<close>

fun is_ClassDef :: "stmt \<Rightarrow> bool" where
  "is_ClassDef (ClassDef n bs body ds) = True"
| "is_ClassDef s = False"

fun cls_def_loop :: "stmt list \<Rightarrow> stmt option \<Rightarrow> error + stmt" where
  "cls_def_loop [] cls_def = Inl (GenerateSourceException ''No class definition!'')"
| "cls_def_loop (node # rest) cls_def =
     (if is_ClassDef node then
        (case cls_def of
           None \<Rightarrow> Inr node
         | Some c \<Rightarrow> Inl (GenerateSourceException ''Multiple class definition!''))
      else cls_def_loop rest cls_def)"

definition object_cls_def :: "Module \<Rightarrow> error + stmt" where
  "object_cls_def tree = cls_def_loop tree None"

subsection \<open>\<^verbatim>\<open>get_object_actions\<close>\<close>

text \<open>
  Modelled from the spec: \<^verbatim>\<open>ActionMetadata\<close>, \<^verbatim>\<open>ObjectActionArgs\<close> and
  \<^verbatim>\<open>ObjectAction\<close> of \<^verbatim>\<open>arcor2.data\<close> are not among the sources. The metadata has the
  four capability flags of the spec, false until set, and setting a flag of another name
  is the \<^verbatim>\<open>AttributeError\<close> that the source catches. A flag holds whatever
  \<^verbatim>\<open>kwarg.value.value\<close> is: a singleton for \<^verbatim>\<open>NameConstant\<close>, a node for
  \<^verbatim>\<open>Attribute\<close> and \<^verbatim>\<open>Subscript\<close>.
\<close>

datatype pyvalue = Const singleton | Node expr

record ActionMetadata =
  free :: pyvalue
  blocking :: pyvalue
  composite :: pyvalue
  blackbox :: pyvalue

record ObjectActionArgs =
  name_arg :: string
  type_arg :: string

record ObjectAction =
  name_action :: string
  meta :: ActionMetadata
  action_args :: "ObjectActionArgs list"

definition new_ActionMetadata :: ActionMetadata where
  "new_ActionMetadata =
     \<lparr>free = Const PyFalse, blocking = Const PyFalse,
      composite = Const PyFalse, blackbox = Const PyFalse\<rparr>"

definition setattr_meta :: "ActionMetadata \<Rightarrow> string \<Rightarrow> pyvalue \<Rightarrow> ActionMetadata option" where
  "setattr_meta m flag v =
     (if flag = ''free'' then Some (m\<lparr>free := v\<rparr>)
      else if flag = ''blocking'' then Some (m\<lparr>blocking := v\<rparr>)
      else if flag = ''composite'' then Some (m\<lparr>composite := v\<rparr>)
      else if flag = ''blackbox'' then Some (m\<lparr>blackbox := v\<rparr>)
      else None)"

text \<open>The attribute \<^verbatim>\<open>value\<close> of an expression node, where the node has one.\<close>

fun value_attr :: "expr \<Rightarrow> pyvalue option" where
  "value_attr (NameConstant v) = Some (Const v)"
| "value_attr (Attribute e a c) = Some (Node e)"
| "value_attr (Subscript e i c) = Some (Node e)"
| "value_attr e = None"

text \<open>The loop over \<^verbatim>\<open>node.value.keywords\<close> (lines 53 to 57).\<close>

fun meta_loop :: "(string option \<times> expr) list \<Rightarrow> ActionMetadata \<Rightarrow> error + ActionMetadata" where
  "meta_loop [] m = Inr m"
| "meta_loop ((kwarg_arg, kwarg_value) # rest) m =
     (case value_attr kwarg_value of
        None \<Rightarrow>
          Inl (GenerateSourceException
                 (''Unknown __action__ attribute ''
                    @ (case kwarg_arg of None \<Rightarrow> ''None'' | Some a \<Rightarrow> a) @ ''.''))
      | Some v \<Rightarrow>
          (case kwarg_arg of
             None \<Rightarrow> Inl TypeError
           | Some a \<Rightarrow>
               (case setattr_meta m a v of
                  None \<Rightarrow> Inl (GenerateSourceException (''Unknown __action__ attribute '' @ a @ ''.''))
                | Some m' \<Rightarrow> meta_loop rest m')))"

text \<open>
  The first loop over the class body (lines 37 to 58): \<open>action_target\<close> is the target of
  an assignment that passes the three \<^verbatim>\<open>continue\<close> tests, with the assigned value.
\<close>

fun action_target :: "stmt \<Rightarrow> (expr \<times> expr) option" where
  "action_target (Assign [Attribute tv attr ctx] v) =
     (if attr \<noteq> ''__action__'' then None else Some (tv, v))"
| "action_target node = None"

fun keywords_attr :: "expr \<Rightarrow> (string option \<times> expr) list option" where
  "keywords_attr (Call f as kws) = Some kws"
| "keywords_attr e = None"

fun id_attr :: "expr \<Rightarrow> string option" where
  "id_attr (Name i c) = Some i"
| "id_attr e = None"

fun action_attr_loop ::
  "stmt list \<Rightarrow> (string \<rightharpoonup> ActionMetadata) \<Rightarrow> error + (string \<rightharpoonup> ActionMetadata)" where
  "action_attr_loop [] action_attr = Inr action_attr"
| "action_attr_loop (node # rest) action_attr =
     (case action_target node of
        None \<Rightarrow> action_attr_loop rest action_attr
      | Some (tv, v) \<Rightarrow>
          (case keywords_attr v of
             None \<Rightarrow> Inl AttributeError
           | Some kws \<Rightarrow>
               (case meta_loop kws new_ActionMetadata of
                  Inl e \<Rightarrow> Inl e
                | Inr m \<Rightarrow>
                    (case id_attr tv of
                       None \<Rightarrow> Inl AttributeError
                     | Some i \<Rightarrow> action_attr_loop rest (action_attr(i \<mapsto> m))))))"

text \<open>
  The loop over \<^verbatim>\<open>node.decorator_list\<close> with its \<^verbatim>\<open>for ... else\<close> (lines 67 to 73):
  \<open>Inr True\<close> when it leaves with \<^verbatim>\<open>break\<close>.
\<close>

fun has_action_decorator :: "expr list \<Rightarrow> error + bool" where
  "has_action_decorator [] = Inr False"
| "has_action_decorator (decorator # rest) =
     (case id_attr decorator of
        None \<Rightarrow> Inl AttributeError
      | Some i \<Rightarrow> if i = ''action'' then Inr True else has_action_decorator rest)"

text \<open>The loop over \<^verbatim>\<open>node.args.args\<close> (lines 80 to 88).\<close>

fun action_args_loop ::
  "string \<Rightarrow> arg list \<Rightarrow> ObjectActionArgs list \<Rightarrow> error + ObjectActionArgs list" where
  "action_args_loop name [] acc = Inr acc"
| "action_args_loop name (aarg # rest) acc =
     (if arg_of aarg = ''self'' then action_args_loop name rest acc
      else
        (case annotation aarg of
           None \<Rightarrow>
             Inl (GenerateSourceException
                    (''Argument '' @ arg_of aarg @ '' of method '' @ name @ '' not annotated.''))
         | Some a \<Rightarrow>
             (case id_attr a of
                None \<Rightarrow> Inl AttributeError
              | Some i \<Rightarrow>
                  action_args_loop name rest (acc @ [\<lparr>name_arg = arg_of aarg, type_arg = i\<rparr>]))))"

text \<open>The second loop over the class body (lines 62 to 90); the last argument is \<^verbatim>\<open>ret\<close>.\<close>

fun object_actions_loop ::
  "(string \<rightharpoonup> ActionMetadata) \<Rightarrow> stmt list \<Rightarrow> ObjectAction list \<Rightarrow> error + ObjectAction list" where
  "object_actions_loop action_attr [] ret = Inr ret"
| "object_actions_loop action_attr (FunctionDef name as body decorator_list returns # rest) ret =
     (case has_action_decorator decorator_list of
        Inl e \<Rightarrow> Inl e
      | Inr False \<Rightarrow>
          (if name \<in> dom action_attr
           then Inl (GenerateSourceException
                       (''Method '' @ name @ '' has metadata, but no @action decorator.''))
           else object_actions_loop action_attr rest ret)
      | Inr True \<Rightarrow>
          (case action_attr name of
             None \<Rightarrow>
               Inl (GenerateSourceException
                      (''Method '' @ name @ '' has @action decorator, but no metadata.''))
           | Some m \<Rightarrow>
               (case action_args_loop name (args as) [] of
                  Inl e \<Rightarrow> Inl e
                | Inr aa \<Rightarrow>
                    object_actions_loop action_attr rest
                      (ret @ [\<lparr>name_action = name, meta = m, action_args = aa\<rparr>]))))"
| "object_actions_loop action_attr (node # rest) ret = object_actions_loop action_attr rest ret"

fun body_of :: "stmt \<Rightarrow> stmt list" where
  "body_of (ClassDef n bs body ds) = body"
| "body_of (FunctionDef n as body ds r) = body"
| "body_of (While t body orelse) = body"
| "body_of (If_stmt t body orelse) = body"
| "body_of s = []"

definition get_object_actions :: "Module \<Rightarrow> error + ObjectAction list" where
  "get_object_actions object_source =
     (case object_cls_def object_source of
        Inl e \<Rightarrow> Inl e
      | Inr tree \<Rightarrow>
          (case action_attr_loop (body_of tree) Map.empty of
             Inl e \<Rightarrow> Inl e
           | Inr action_attr \<Rightarrow> object_actions_loop action_attr (body_of tree) []))"

text \<open>
  A method carries the action marker when one of its decorators is the name
  \<^verbatim>\<open>action\<close>; \<open>annotation_id\<close> is \<^verbatim>\<open>aarg.annotation.id\<close>, where the parameter has an
  annotation and the annotation is a name.
\<close>

definition carries_marker :: "expr list \<Rightarrow> bool" where
  "carries_marker decorator_list = (Some ''action'' \<in> id_attr ` set decorator_list)"


section \<open>Tree utilities\<close>

subsection \<open>References into a tree\<close>

text \<open>
  The source holds references to statement lists inside the tree and mutates them in
  place (\<^verbatim>\<open>main_body.insert\<close>, \<^verbatim>\<open>loop.clear\<close>, \<^verbatim>\<open>body.append\<close>). A reference is a
  path: \<open>[]\<close> is the body of the module, and \<open>p @ [(i, f)]\<close> is the statement list \<open>f\<close>
  of the \<open>i\<close>-th statement of the list at \<open>p\<close>. A mutation of the referenced list is a
  new tree, \<open>update_at\<close>.
\<close>

datatype field = Body | Orelse

type_synonym path = "(nat \<times> field) list"

fun child_list :: "field \<Rightarrow> stmt \<Rightarrow> stmt list option" where
  "child_list Body (FunctionDef n as body ds r) = Some body"
| "child_list Body (ClassDef n bs body ds) = Some body"
| "child_list Body (While t body orelse) = Some body"
| "child_list Orelse (While t body orelse) = Some orelse"
| "child_list Body (If_stmt t body orelse) = Some body"
| "child_list Orelse (If_stmt t body orelse) = Some orelse"
| "child_list f s = None"

fun set_child_list :: "field \<Rightarrow> stmt list \<Rightarrow> stmt \<Rightarrow> stmt" where
  "set_child_list Body l (FunctionDef n as body ds r) = FunctionDef n as l ds r"
| "set_child_list Body l (ClassDef n bs body ds) = ClassDef n bs l ds"
| "set_child_list Body l (While t body orelse) = While t l orelse"
| "set_child_list Orelse l (While t body orelse) = While t body l"
| "set_child_list Body l (If_stmt t body orelse) = If_stmt t l orelse"
| "set_child_list Orelse l (If_stmt t body orelse) = If_stmt t body l"
| "set_child_list f l s = s"

fun get_at :: "stmt list \<Rightarrow> path \<Rightarrow> stmt list option" where
  "get_at body [] = Some body"
| "get_at body ((i, f) # p) =
     (if i < length body then
        (case child_list f (body ! i) of
           None \<Rightarrow> None
         | Some l \<Rightarrow> get_at l p)
      else None)"

fun update_at :: "(stmt list \<Rightarrow> stmt list) \<Rightarrow> path \<Rightarrow> stmt list \<Rightarrow> stmt list" where
  "update_at g [] body = g body"
| "update_at g ((i, f) # p) body =
     (if i < length body then
        (case child_list f (body ! i) of
           None \<Rightarrow> body
         | Some l \<Rightarrow> body[i := set_child_list f (update_at g p l) (body ! i)])
      else body)"

subsection \<open>\<^verbatim>\<open>find_function\<close>\<close>

text \<open>
  The visitor \<^verbatim>\<open>FindFunction\<close>: \<^verbatim>\<open>generic_visit\<close> walks the statement lists of a node
  in the order of its fields; a function definition of the wanted name is stored (a later
  one replaces an earlier one) and not entered; another function definition is entered
  only while nothing has been found. The state is \<^verbatim>\<open>self.function_node\<close>, as the
  reference to the body of the stored node.
\<close>

fun find_function_stmt :: "string \<Rightarrow> path \<Rightarrow> nat \<Rightarrow> stmt \<Rightarrow> path option \<Rightarrow> path option"
  and find_function_stmts :: "string \<Rightarrow> path \<Rightarrow> nat \<Rightarrow> stmt list \<Rightarrow> path option \<Rightarrow> path option"
where
  "find_function_stmt name p i (FunctionDef n as body ds r) function_node =
     (if n = name then Some (p @ [(i, Body)])
      else if function_node = None
           then find_function_stmts name (p @ [(i, Body)]) 0 body function_node
           else function_node)"
| "find_function_stmt name p i (ClassDef n bs body ds) function_node =
     find_function_stmts name (p @ [(i, Body)]) 0 body function_node"
| "find_function_stmt name p i (While t body orelse) function_node =
     find_function_stmts name (p @ [(i, Orelse)]) 0 orelse
       (find_function_stmts name (p @ [(i, Body)]) 0 body function_node)"
| "find_function_stmt name p i (If_stmt t body orelse) function_node =
     find_function_stmts name (p @ [(i, Orelse)]) 0 orelse
       (find_function_stmts name (p @ [(i, Body)]) 0 body function_node)"
| "find_function_stmt name p i (Assign ts v) function_node = function_node"
| "find_function_stmt name p i (AnnAssign t a v) function_node = function_node"
| "find_function_stmt name p i (ImportFrom m ns l) function_node = function_node"
| "find_function_stmt name p i (Expr e) function_node = function_node"
| "find_function_stmt name p i Pass function_node = function_node"
| "find_function_stmts name p i [] function_node = function_node"
| "find_function_stmts name p i (s # ss) function_node =
     find_function_stmts name p (Suc i) ss (find_function_stmt name p i s function_node)"

text \<open>The result is the reference to \<^verbatim>\<open>find_function(name, tree).body\<close>.\<close>

definition find_function :: "string \<Rightarrow> Module \<Rightarrow> error + path" where
  "find_function name tree =
     (case find_function_stmts name [] 0 tree None of
        None \<Rightarrow> Inl (GenerateSourceException (''Function '' @ name @ '' not found.''))
      | Some p \<Rightarrow> Inr p)"

subsection \<open>\<^verbatim>\<open>main_loop_body\<close>\<close>

fun is_While :: "stmt \<Rightarrow> bool" where
  "is_While (While t body orelse) = True"
| "is_While s = False"

text \<open>The index of the first statement of a list that satisfies a test.\<close>

fun find_index :: "('a \<Rightarrow> bool) \<Rightarrow> 'a list \<Rightarrow> nat option" where
  "find_index P [] = None"
| "find_index P (x # xs) = (if P x then Some 0 else map_option Suc (find_index P xs))"

definition main_loop_body :: "Module \<Rightarrow> error + path" where
  "main_loop_body tree =
     (case find_function ''main'' tree of
        Inl e \<Rightarrow> Inl e
      | Inr p \<Rightarrow>
          (case get_at tree p of
             None \<Rightarrow> Inl (GenerateSourceException ''Main loop not found.'')
           | Some main_body \<Rightarrow>
               (case find_index is_While main_body of
                  None \<Rightarrow> Inl (GenerateSourceException ''Main loop not found.'')
                | Some j \<Rightarrow> Inr (p @ [(j, Body)]))))"

section \<open>Script recovery\<close>

subsection \<open>\<^verbatim>\<open>get_logic_from_source\<close>\<close>

text \<open>
  The \<^verbatim>\<open>try\<close> block of lines 193 to 200: \<^verbatim>\<open>val.func.value.id\<close>,
  \<^verbatim>\<open>val.func.attr\<close> and \<^verbatim>\<open>val.keywords[0].value.attr\<close> exist when the expression is a
  call of an attribute of a name whose first keyword has an attribute as its value; every
  other shape raises \<^verbatim>\<open>AttributeError\<close> or \<^verbatim>\<open>IndexError\<close>, which the source turns
  into one exception. The result is \<^verbatim>\<open>(obj_id, method, action_id)\<close>.
\<close>

fun call_parts :: "expr \<Rightarrow> (string \<times> string \<times> string) option" where
  "call_parts (Call (Attribute (Name obj_id c1) method c2) as ((kw, Attribute v action_id c3) # kws)) =
     Some (obj_id, method, action_id)"
| "call_parts e = None"

text \<open>
  The cache maps a key to an object; \<open>mutate\<close> changes the object stored under a key, as
  a method call on that object does.
\<close>

definition mutate :: "actions_cache \<Rightarrow> string \<Rightarrow> (Action \<Rightarrow> Action) \<Rightarrow> actions_cache" where
  "mutate actions_cache k f =
     (case actions_cache k of
        None \<Rightarrow> actions_cache
      | Some a \<Rightarrow> actions_cache(k \<mapsto> f a))"

text \<open>
  Lines 221 to 235, for the action stored under \<open>action_id\<close>: \<open>n\<close> is \<^verbatim>\<open>len(loop)\<close>.
  The result is the exception raised, if any (a failed \<^verbatim>\<open>assert\<close>, or the
  \<^verbatim>\<open>KeyError\<close> of \<^verbatim>\<open>actions_cache[last_action.id]\<close>), and the cache at that point.
\<close>

definition link_action ::
  "nat \<Rightarrow> nat \<Rightarrow> string \<Rightarrow> Action \<Rightarrow> Action option \<Rightarrow> actions_cache
     \<Rightarrow> error option \<times> actions_cache" where
  "link_action n node_idx action_id action last_action actions_cache =
     (let c1 = mutate actions_cache action_id (\<lambda>a. a\<lparr>inputs := [], outputs := []\<rparr>) in
      if node_idx = 0 then
        (let c2 = mutate c1 action_id (\<lambda>a. a\<lparr>inputs := inputs a @ [ActionIO (Inl FIRST)]\<rparr>) in
         (None,
          if int node_idx = int n - 1
          then mutate c2 action_id (\<lambda>a. a\<lparr>outputs := outputs a @ [ActionIO (Inl LAST)]\<rparr>)
          else c2))
      else
        (case last_action of
           None \<Rightarrow> (Some AssertionError, c1)
         | Some l \<Rightarrow>
             (let c2 = mutate c1 action_id
                         (\<lambda>a. a\<lparr>inputs := inputs a @ [ActionIO (Inr (id_action l))]\<rparr>) in
              case c2 (id_action l) of
                None \<Rightarrow> (Some KeyError, c2)
              | Some la \<Rightarrow>
                  (let c3 = mutate c2 (id_action l)
                              (\<lambda>a. a\<lparr>outputs := outputs a @ [ActionIO (Inr (id_action action))]\<rparr>) in
                   (None,
                    if int node_idx = int n - 1
                    then mutate c3 action_id
                           (\<lambda>a. a\<lparr>outputs := outputs a @ [ActionIO (Inl LAST)]\<rparr>)
                    else c3)))))"

text \<open>
  The loop over \<^verbatim>\<open>enumerate(loop)\<close> (lines 187 to 237). The result is the exception
  raised, if any, with the cache as the loop leaves it: the source mutates the cache in
  place, so a failure keeps the mutations made before it.
\<close>

fun logic_from_loop ::
  "nat \<Rightarrow> nat \<Rightarrow> stmt list \<Rightarrow> actions_cache \<Rightarrow> string set \<Rightarrow> Action option
     \<Rightarrow> error option \<times> actions_cache" where
  "logic_from_loop n node_idx [] actions_cache found_actions last_action = (None, actions_cache)"
| "logic_from_loop n node_idx (Expr val # rest) actions_cache found_actions last_action =
     (case call_parts val of
        None \<Rightarrow> (Some (GenerateSourceException ''Script has unexpected content.''), actions_cache)
      | Some (obj_id, method, action_id) \<Rightarrow>
          if action_id \<in> found_actions
          then (Some (GenerateSourceException (''Duplicate action: '' @ action_id @ ''.'')),
                actions_cache)
          else
            (case actions_cache action_id of
               None \<Rightarrow>
                 (Some (GenerateSourceException (''Unknown action '' @ action_id @ ''.'')),
                  actions_cache)
             | Some action \<Rightarrow>
                 (case split_on CHR ''/'' (type_action action) of
                    [at_obj, at_method] \<Rightarrow>
                      if convert_cc at_obj \<noteq> obj_id \<or> at_method \<noteq> method
                      then (Some (GenerateSourceException
                                    (''Action type '' @ type_action action
                                       @ '' does not correspond to source, where it is ''
                                       @ obj_id @ ''/'' @ method @ ''.'')),
                            actions_cache)
                      else
                        (case link_action n node_idx action_id action last_action actions_cache of
                           (Some e, c) \<Rightarrow> (Some e, c)
                         | (None, c) \<Rightarrow>
                             logic_from_loop n (Suc node_idx) rest c
                               (insert action_id found_actions) (Some action))
                  | parts \<Rightarrow> (Some ValueError, actions_cache))))"
| "logic_from_loop n node_idx (node # rest) actions_cache found_actions last_action =
     (Some (GenerateSourceException ''Unexpected content.''), actions_cache)"

text \<open>
  \<^verbatim>\<open>get_logic_from_source\<close> after its first line: the argument is the tree that
  \<^verbatim>\<open>parse(source_code)\<close> returns (line 176).
\<close>

definition get_logic_from_source :: "Module \<Rightarrow> Project \<Rightarrow> error option \<times> actions_cache" where
  "get_logic_from_source source_code project =
     (case get_actions_cache project of
        (actions_cache, first_action_id, last_action_id) \<Rightarrow>
          (case main_loop_body source_code of
             Inl e \<Rightarrow> (Some e, actions_cache)
           | Inr p \<Rightarrow>
               (case get_at source_code p of
                  None \<Rightarrow> (Some (GenerateSourceException ''Main loop not found.''), actions_cache)
                | Some loop \<Rightarrow> logic_from_loop (length loop) 0 loop actions_cache {} None)))"

subsection \<open>Statements that the walk accepts\<close>

text \<open>
  The action id that a statement of the loop refers to; the test that a statement passes
  the checks of lines 190 to 219 against a cache, the duplicate test apart; and a cache
  that holds every action under its own id.
\<close>

fun stmt_action_id :: "stmt \<Rightarrow> string option" where
  "stmt_action_id (Expr val) = map_option (\<lambda>(obj_id, method, action_id). action_id) (call_parts val)"
| "stmt_action_id s = None"

fun accepted :: "actions_cache \<Rightarrow> stmt \<Rightarrow> bool" where
  "accepted actions_cache (Expr val) =
     (case call_parts val of
        None \<Rightarrow> False
      | Some (obj_id, method, action_id) \<Rightarrow>
          (case actions_cache action_id of
             None \<Rightarrow> False
           | Some action \<Rightarrow>
               (case split_on CHR ''/'' (type_action action) of
                  [at_obj, at_method] \<Rightarrow> convert_cc at_obj = obj_id \<and> at_method = method
                | parts \<Rightarrow> False)))"
| "accepted actions_cache s = False"

definition keyed_by_id :: "actions_cache \<Rightarrow> bool" where
  "keyed_by_id actions_cache = (\<forall>k a. actions_cache k = Some a \<longrightarrow> id_action a = k)"

subsection \<open>The links that the walk builds\<close>

text \<open>
  The effect of a walk without error, as a function of the action ids of the statements
  alone: \<open>link\<close> is the step for the id \<open>a\<close> after the id \<open>prev\<close> (none for the first
  statement), \<open>relink\<close> the steps for a list of ids. Lemma \<open>walk_relink\<close> below proves
  that the walk computes it.
\<close>

definition link :: "nat \<Rightarrow> nat \<Rightarrow> string \<Rightarrow> string option \<Rightarrow> actions_cache \<Rightarrow> actions_cache" where
  "link n node_idx a prev c =
     (let c1 = mutate c a
                 (\<lambda>x. x\<lparr>inputs := [ActionIO (case prev of None \<Rightarrow> Inl FIRST | Some p \<Rightarrow> Inr p)],
                         outputs := (if Suc node_idx = n then [ActionIO (Inl LAST)] else [])\<rparr>)
      in case prev of
           None \<Rightarrow> c1
         | Some p \<Rightarrow> mutate c1 p (\<lambda>x. x\<lparr>outputs := outputs x @ [ActionIO (Inr a)]\<rparr>))"

fun relink :: "nat \<Rightarrow> nat \<Rightarrow> string list \<Rightarrow> string option \<Rightarrow> actions_cache \<Rightarrow> actions_cache" where
  "relink n node_idx [] prev c = c"
| "relink n node_idx (a # as) prev c = relink n (Suc node_idx) as (Some a) (link n node_idx a prev c)"

definition loop_ids :: "stmt list \<Rightarrow> string list" where
  "loop_ids loop = List.map_filter stmt_action_id loop"

text \<open>
  The link before and the links after an id in a list of ids: \<open>pred_io prev as a\<close> is
  the input of \<open>a\<close> when the list \<open>as\<close> follows the id \<open>prev\<close>, and \<open>succ_out fin as a\<close>
  the outputs of \<open>a\<close>, where \<open>fin\<close> tells whether the last id of the list is the last
  statement of the loop.
\<close>

fun pred_io :: "string option \<Rightarrow> string list \<Rightarrow> string \<Rightarrow> ActionIOEnum + string" where
  "pred_io prev [] a = (case prev of None \<Rightarrow> Inl FIRST | Some p \<Rightarrow> Inr p)"
| "pred_io prev (b # bs) a =
     (if a = b then (case prev of None \<Rightarrow> Inl FIRST | Some p \<Rightarrow> Inr p)
      else pred_io (Some b) bs a)"

fun succ_out :: "bool \<Rightarrow> string list \<Rightarrow> string \<Rightarrow> ActionIO list" where
  "succ_out fin [] a = []"
| "succ_out fin [b] a = (if fin then [ActionIO (Inl LAST)] else [])"
| "succ_out fin (b # b' # bs) a =
     (if a = b then [ActionIO (Inr b')] else succ_out fin (b' # bs) a)"

text \<open>The statements of the main loop of a program text, where it has one.\<close>

definition main_loop :: "Module \<Rightarrow> stmt list option" where
  "main_loop tree = (case main_loop_body tree of Inl e \<Rightarrow> None | Inr p \<Rightarrow> get_at tree p)"

section \<open>Script emission\<close>

definition quoted :: "string \<Rightarrow> string" where
  "quoted s = CHR 0x27 # s @ [CHR 0x27]"

subsection \<open>\<^verbatim>\<open>empty_script_tree\<close>\<close>

definition empty_script_tree :: Module where
  "empty_script_tree =
     [FunctionDef ''main'' (arguments [] None [] None)
        [While (NameConstant PyTrue) [Pass] []] [] (Some (NameConstant PyNone)),
      If_stmt (Compare (Name ''__name__'' Load) [Str ''__main__''])
        [Expr (Call (Name ''main'' Load) [] [])] []]"

subsection \<open>\<^verbatim>\<open>add_import\<close>\<close>

text \<open>
  The transformer \<^verbatim>\<open>AddImportTransformer\<close>, with \<^verbatim>\<open>self.done\<close> as the state: every
  \<^verbatim>\<open>ImportFrom\<close> node of the module named gets the class, if it does not list it yet.
\<close>

fun add_import_stmt :: "string \<Rightarrow> string \<Rightarrow> stmt \<Rightarrow> bool \<Rightarrow> stmt \<times> bool"
  and add_import_stmts :: "string \<Rightarrow> string \<Rightarrow> stmt list \<Rightarrow> bool \<Rightarrow> stmt list \<times> bool"
where
  "add_import_stmt module cls (ImportFrom m names level) done =
     (if m = Some module then
        (if cls \<in> alias_name ` set names then (ImportFrom m names level, True)
         else (ImportFrom m (names @ [import_alias cls None]) level, True))
      else (ImportFrom m names level, done))"
| "add_import_stmt module cls (FunctionDef n as body ds r) done =
     (case add_import_stmts module cls body done of
        (body', d) \<Rightarrow> (FunctionDef n as body' ds r, d))"
| "add_import_stmt module cls (ClassDef n bs body ds) done =
     (case add_import_stmts module cls body done of
        (body', d) \<Rightarrow> (ClassDef n bs body' ds, d))"
| "add_import_stmt module cls (While t body orelse) done =
     (case add_import_stmts module cls body done of
        (body', d) \<Rightarrow>
          (case add_import_stmts module cls orelse d of
             (orelse', d') \<Rightarrow> (While t body' orelse', d')))"
| "add_import_stmt module cls (If_stmt t body orelse) done =
     (case add_import_stmts module cls body done of
        (body', d) \<Rightarrow>
          (case add_import_stmts module cls orelse d of
             (orelse', d') \<Rightarrow> (If_stmt t body' orelse', d')))"
| "add_import_stmt module cls (Assign ts v) done = (Assign ts v, done)"
| "add_import_stmt module cls (AnnAssign t a v) done = (AnnAssign t a v, done)"
| "add_import_stmt module cls (Expr e) done = (Expr e, done)"
| "add_import_stmt module cls Pass done = (Pass, done)"
| "add_import_stmts module cls [] done = ([], done)"
| "add_import_stmts module cls (s # ss) done =
     (case add_import_stmt module cls s done of
        (s', d) \<Rightarrow>
          (case add_import_stmts module cls ss d of
             (ss', d') \<Rightarrow> (s' # ss', d')))"

text \<open>
  \<^verbatim>\<open>add_import\<close> with \<^verbatim>\<open>try_to_import=False\<close>, as \<^verbatim>\<open>program_src\<close> calls it; the
  other branch asks the interpreter whether the module can be imported.
\<close>

definition add_import :: "Module \<Rightarrow> string \<Rightarrow> string \<Rightarrow> Module" where
  "add_import node module cls =
     (case add_import_stmts module cls node False of
        (node', done) \<Rightarrow>
          if \<not> done then ImportFrom (Some module) [import_alias cls None] 0 # node'
          else node')"

subsection \<open>\<^verbatim>\<open>add_cls_inst\<close>\<close>

text \<open>The visitor \<^verbatim>\<open>FindImport\<close>, with \<^verbatim>\<open>self.found\<close> as the state.\<close>

fun find_import_stmt :: "string \<Rightarrow> stmt \<Rightarrow> bool \<Rightarrow> bool"
  and find_import_stmts :: "string \<Rightarrow> stmt list \<Rightarrow> bool \<Rightarrow> bool"
where
  "find_import_stmt cls (ImportFrom m names level) found =
     (found \<or> cls \<in> alias_name ` set names)"
| "find_import_stmt cls (FunctionDef n as body ds r) found = find_import_stmts cls body found"
| "find_import_stmt cls (ClassDef n bs body ds) found = find_import_stmts cls body found"
| "find_import_stmt cls (While t body orelse) found =
     find_import_stmts cls orelse (find_import_stmts cls body found)"
| "find_import_stmt cls (If_stmt t body orelse) found =
     find_import_stmts cls orelse (find_import_stmts cls body found)"
| "find_import_stmt cls (Assign ts v) found = found"
| "find_import_stmt cls (AnnAssign t a v) found = found"
| "find_import_stmt cls (Expr e) found = found"
| "find_import_stmt cls Pass found = found"
| "find_import_stmts cls [] found = found"
| "find_import_stmts cls (s # ss) found =
     find_import_stmts cls ss (find_import_stmt cls s found)"

text \<open>
  The visitor \<^verbatim>\<open>FindClsInst\<close>: the loop over the body of a function \<^verbatim>\<open>main\<close>, then
  the traversal. \<^verbatim>\<open>item.targets[0].id\<close> and \<^verbatim>\<open>item.value.func.id\<close> raise when the
  nodes are of another shape.
\<close>

fun func_id :: "expr \<Rightarrow> string option" where
  "func_id (Call f as kws) = id_attr f"
| "func_id e = None"

fun find_cls_inst_items :: "string \<Rightarrow> string \<Rightarrow> stmt list \<Rightarrow> bool \<Rightarrow> error + bool" where
  "find_cls_inst_items cls name [] found = Inr found"
| "find_cls_inst_items cls name (Assign targets v # rest) found =
     (case targets of
        [] \<Rightarrow> Inl IndexError
      | t # ts \<Rightarrow>
          (case id_attr t of
             None \<Rightarrow> Inl AttributeError
           | Some i \<Rightarrow>
               if i = name then
                 (case func_id v of
                    None \<Rightarrow> Inl AttributeError
                  | Some fi \<Rightarrow>
                      if fi \<noteq> cls
                      then Inl (GenerateSourceException
                                  (''Name '' @ quoted name @ '' already used for instance of ''
                                     @ quoted fi @ ''!''))
                      else find_cls_inst_items cls name rest True)
               else find_cls_inst_items cls name rest found))"
| "find_cls_inst_items cls name (item # rest) found = find_cls_inst_items cls name rest found"

fun find_cls_inst_stmt :: "string \<Rightarrow> string \<Rightarrow> stmt \<Rightarrow> bool \<Rightarrow> error + bool"
  and find_cls_inst_stmts :: "string \<Rightarrow> string \<Rightarrow> stmt list \<Rightarrow> bool \<Rightarrow> error + bool"
where
  "find_cls_inst_stmt cls name (FunctionDef n as body ds r) found =
     (case (if n = ''main'' then find_cls_inst_items cls name body found else Inr found) of
        Inl e \<Rightarrow> Inl e
      | Inr f \<Rightarrow> if \<not> f then find_cls_inst_stmts cls name body f else Inr f)"
| "find_cls_inst_stmt cls name (ClassDef n bs body ds) found =
     find_cls_inst_stmts cls name body found"
| "find_cls_inst_stmt cls name (While t body orelse) found =
     (case find_cls_inst_stmts cls name body found of
        Inl e \<Rightarrow> Inl e
      | Inr f \<Rightarrow> find_cls_inst_stmts cls name orelse f)"
| "find_cls_inst_stmt cls name (If_stmt t body orelse) found =
     (case find_cls_inst_stmts cls name body found of
        Inl e \<Rightarrow> Inl e
      | Inr f \<Rightarrow> find_cls_inst_stmts cls name orelse f)"
| "find_cls_inst_stmt cls name (Assign ts v) found = Inr found"
| "find_cls_inst_stmt cls name (AnnAssign t a v) found = Inr found"
| "find_cls_inst_stmt cls name (ImportFrom m ns l) found = Inr found"
| "find_cls_inst_stmt cls name (Expr e) found = Inr found"
| "find_cls_inst_stmt cls name Pass found = Inr found"
| "find_cls_inst_stmts cls name [] found = Inr found"
| "find_cls_inst_stmts cls name (s # ss) found =
     (case find_cls_inst_stmt cls name s found of
        Inl e \<Rightarrow> Inl e
      | Inr f \<Rightarrow> find_cls_inst_stmts cls name ss f)"

text \<open>
  The transformer \<^verbatim>\<open>AddClsInst\<close>, without keyword arguments: a function \<^verbatim>\<open>main\<close>
  gets the assignment at the head of its body; function definitions are not entered.
\<close>

fun add_cls_inst_stmt :: "string \<Rightarrow> string \<Rightarrow> stmt \<Rightarrow> stmt"
  and add_cls_inst_stmts :: "string \<Rightarrow> string \<Rightarrow> stmt list \<Rightarrow> stmt list"
where
  "add_cls_inst_stmt cls name (FunctionDef n as body ds r) =
     (if n = ''main''
      then FunctionDef n as (Assign [Name name Store] (Call (Name cls Load) [] []) # body) ds r
      else FunctionDef n as body ds r)"
| "add_cls_inst_stmt cls name (ClassDef n bs body ds) =
     ClassDef n bs (add_cls_inst_stmts cls name body) ds"
| "add_cls_inst_stmt cls name (While t body orelse) =
     While t (add_cls_inst_stmts cls name body) (add_cls_inst_stmts cls name orelse)"
| "add_cls_inst_stmt cls name (If_stmt t body orelse) =
     If_stmt t (add_cls_inst_stmts cls name body) (add_cls_inst_stmts cls name orelse)"
| "add_cls_inst_stmt cls name (Assign ts v) = Assign ts v"
| "add_cls_inst_stmt cls name (AnnAssign t a v) = AnnAssign t a v"
| "add_cls_inst_stmt cls name (ImportFrom m ns l) = ImportFrom m ns l"
| "add_cls_inst_stmt cls name (Expr e) = Expr e"
| "add_cls_inst_stmt cls name Pass = Pass"
| "add_cls_inst_stmts cls name [] = []"
| "add_cls_inst_stmts cls name (s # ss) =
     add_cls_inst_stmt cls name s # add_cls_inst_stmts cls name ss"

definition add_cls_inst :: "Module \<Rightarrow> string \<Rightarrow> string \<Rightarrow> error + Module" where
  "add_cls_inst node cls name =
     (if \<not> find_import_stmts cls node False
      then Inl (GenerateSourceException (''Class '' @ quoted cls @ '' not imported!''))
      else
        (case find_cls_inst_stmts cls name node False of
           Inl e \<Rightarrow> Inl e
         | Inr found \<Rightarrow>
             if \<not> found then Inr (add_cls_inst_stmts cls name node) else Inr node))"

subsection \<open>\<^verbatim>\<open>object_instance_from_res\<close>\<close>

fun is_assign :: "stmt \<Rightarrow> bool" where
  "is_assign (Assign ts v) = True"
| "is_assign (AnnAssign t a v) = True"
| "is_assign s = False"

text \<open>
  The loop over \<^verbatim>\<open>enumerate(main_body)\<close> that keeps the last matching index, and
  \<^verbatim>\<open>list.insert\<close>, which appends when the index is past the end.
\<close>

fun last_index_loop :: "('a \<Rightarrow> bool) \<Rightarrow> nat \<Rightarrow> 'a list \<Rightarrow> nat option \<Rightarrow> nat option" where
  "last_index_loop P i [] r = r"
| "last_index_loop P i (x # xs) r = last_index_loop P (Suc i) xs (if P x then Some i else r)"

definition list_insert :: "nat \<Rightarrow> 'a \<Rightarrow> 'a list \<Rightarrow> 'a list" where
  "list_insert i x xs = take i xs @ x # drop i xs"

definition object_instance_from_res :: "Module \<Rightarrow> string \<Rightarrow> string \<Rightarrow> error + Module" where
  "object_instance_from_res tree object_id cls_name =
     (case find_function ''main'' tree of
        Inl e \<Rightarrow> Inl e
      | Inr p \<Rightarrow>
          (case get_at tree p of
             None \<Rightarrow> Inl (GenerateSourceException [])
           | Some main_body \<Rightarrow>
               (case last_index_loop is_assign 0 main_body None of
                  None \<Rightarrow> Inl (GenerateSourceException [])
                | Some last_assign_idx \<Rightarrow>
                    Inr (update_at
                           (list_insert (last_assign_idx + 1)
                              (AnnAssign (Name (fix_object_name object_id) Store)
                                 (Name cls_name Load)
                                 (Some (Subscript (Attribute (Name ''res'' Load) ''objects'' Load)
                                          (Str object_id) Load))))
                           p tree))))"

subsection \<open>\<^verbatim>\<open>add_logic_to_loop\<close>\<close>

text \<open>
  The statement that \<^verbatim>\<open>append_method_call\<close> appends for an action: the call
  \<^verbatim>\<open>instance.method(**res.action_id)\<close>.
\<close>

definition method_call :: "string \<Rightarrow> string \<Rightarrow> expr list \<Rightarrow> (string option \<times> expr) list \<Rightarrow> stmt" where
  "method_call instance method as kwargs =
     Expr (Call (Attribute (Name instance Load) method Load) as kwargs)"

definition append_method_call ::
  "stmt list \<Rightarrow> string \<Rightarrow> string \<Rightarrow> expr list \<Rightarrow> (string option \<times> expr) list \<Rightarrow> stmt list" where
  "append_method_call body instance method as kwargs = body @ [method_call instance method as kwargs]"

text \<open>
  The loop \<^verbatim>\<open>while True\<close> of lines 254 to 275, with \<^verbatim>\<open>next_action_id\<close> and the
  list \<^verbatim>\<open>loop\<close> as its state. \<open>None\<close> is a run that never leaves the loop.
  \<^verbatim>\<open>next_action_id\<close> is an id at first and the field \<^verbatim>\<open>default\<close> of an output later;
  a sentinel is no key of the cache.
\<close>

partial_function (option) logic_loop ::
  "actions_cache \<Rightarrow> string \<Rightarrow> ActionIOEnum + string \<Rightarrow> stmt list \<Rightarrow> (error + stmt list) option" where
  "logic_loop actions_cache last_action_id next_action_id loop =
     (case (case next_action_id of Inl s \<Rightarrow> None | Inr k \<Rightarrow> actions_cache k) of
        None \<Rightarrow> Some (Inl KeyError)
      | Some act \<Rightarrow>
          (case split_on CHR ''/'' (type_action act) of
             [ac_obj, ac_type] \<Rightarrow>
               (let loop' = append_method_call (if loop = [Pass] then [] else loop)
                              (fix_object_name ac_obj) ac_type []
                              [(None, Attribute (Name ''res'' Load) (id_action act) Load)]
                in if id_action act = last_action_id then Some (Inr loop')
                   else (case outputs act of
                           [] \<Rightarrow> Some (Inl IndexError)
                         | io # ios \<Rightarrow>
                             logic_loop actions_cache last_action_id (default_io io) loop'))
           | parts \<Rightarrow> Some (Inl ValueError)))"

declare logic_loop.simps [code]

definition add_logic_to_loop :: "Module \<Rightarrow> Project \<Rightarrow> (error + Module) option" where
  "add_logic_to_loop tree project =
     (case main_loop_body tree of
        Inl e \<Rightarrow> Some (Inl e)
      | Inr p \<Rightarrow>
          (case get_at tree p of
             None \<Rightarrow> Some (Inl (GenerateSourceException ''Main loop not found.''))
           | Some loop \<Rightarrow>
               (case get_actions_cache project of
                  (actions_cache, first_action_id, last_action_id) \<Rightarrow>
                    (case first_action_id of
                       None \<Rightarrow>
                         Some (Inl (GenerateSourceException (quoted ''start'' @ '' action not found.'')))
                     | Some f \<Rightarrow>
                         (case last_action_id of
                            None \<Rightarrow>
                              Some (Inl (GenerateSourceException
                                           (quoted ''end'' @ '' action not found.'')))
                          | Some l \<Rightarrow>
                              (case logic_loop actions_cache l (Inr f) loop of
                                 None \<Rightarrow> None
                               | Some (Inl e) \<Rightarrow> Some (Inl e)
                               | Some (Inr loop') \<Rightarrow>
                                   Some (Inr (update_at (\<lambda>old. loop') p tree))))))))"

subsection \<open>\<^verbatim>\<open>program_src\<close>\<close>

text \<open>The loop over \<^verbatim>\<open>scene.objects\<close> (lines 160 to 167).\<close>

fun scene_objects_loop :: "SceneObject list \<Rightarrow> string set \<Rightarrow> Module \<Rightarrow> error + Module" where
  "scene_objects_loop [] built_in_objects tree = Inr tree"
| "scene_objects_loop (obj # rest) built_in_objects tree =
     (case object_instance_from_res
             (if type_object obj \<in> built_in_objects
              then add_import tree ''arcor2.object_types'' (type_object obj)
              else add_import tree (''object_types.'' @ convert_cc (type_object obj)) (type_object obj))
             (id_object obj) (type_object obj) of
        Inl e \<Rightarrow> Inl e
      | Inr tree' \<Rightarrow> scene_objects_loop rest built_in_objects tree')"

text \<open>
  \<^verbatim>\<open>program_src\<close> up to its last line: the result is the tree that line 171 hands to
  \<^verbatim>\<open>tree_to_str\<close>. An exception leaves no text, and \<open>None\<close> is a call that does not
  return. The text of the tree, and what the parser reads from it, is the subject of the
  section on the program text below; a tree stands for its text only where the names in
  it are names of a program text.
\<close>

definition program_src :: "Project \<Rightarrow> Scene \<Rightarrow> string set \<Rightarrow> (error + Module) option" where
  "program_src project scene built_in_objects =
     (case add_cls_inst (add_import empty_script_tree ''resources'' ''Resources'')
             ''Resources'' ''res'' of
        Inl e \<Rightarrow> Some (Inl e)
      | Inr tree \<Rightarrow>
          (case scene_objects_loop (objects scene) built_in_objects tree of
             Inl e \<Rightarrow> Some (Inl e)
           | Inr tree' \<Rightarrow> add_logic_to_loop tree' project))"

subsection \<open>The program skeleton\<close>

text \<open>
  The shape of every tree that \<^verbatim>\<open>program_src\<close> builds: imports, the function
  \<^verbatim>\<open>main\<close> with its instantiations and its loop, and the guarded entry point.
\<close>

fun is_import :: "stmt \<Rightarrow> bool" where
  "is_import (ImportFrom m ns l) = True"
| "is_import s = False"

definition script :: "stmt list \<Rightarrow> stmt list \<Rightarrow> stmt list \<Rightarrow> Module" where
  "script imports assigns loop =
     imports @
     [FunctionDef ''main'' (arguments [] None [] None)
        (assigns @ [While (NameConstant PyTrue) loop []]) [] (Some (NameConstant PyNone)),
      If_stmt (Compare (Name ''__name__'' Load) [Str ''__main__''])
        [Expr (Call (Name ''main'' Load) [] [])] []]"

text \<open>The tree of \<^verbatim>\<open>program_src\<close> before \<^verbatim>\<open>add_logic_to_loop\<close> (lines 154 to 167).\<close>

definition scene_tree :: "Scene \<Rightarrow> string set \<Rightarrow> error + Module" where
  "scene_tree scene built_in_objects =
     (case add_cls_inst (add_import empty_script_tree ''resources'' ''Resources'')
             ''Resources'' ''res'' of
        Inl e \<Rightarrow> Inl e
      | Inr tree \<Rightarrow> scene_objects_loop (objects scene) built_in_objects tree)"

subsection \<open>The chain of actions\<close>

text \<open>
  The path that the loop of \<^verbatim>\<open>add_logic_to_loop\<close> follows: \<open>chain c l ids\<close> holds when
  the ids are keys of the cache, each action but the last has the next id as the field
  \<^verbatim>\<open>default\<close> of its first output and an id other than \<open>l\<close>, and the last action has
  the id \<open>l\<close>. \<open>action_call\<close> is the statement emitted for an action, \<open>calls_of\<close> the
  statements for a list of ids.
\<close>

fun chain :: "actions_cache \<Rightarrow> string \<Rightarrow> string list \<Rightarrow> bool" where
  "chain c l [] = False"
| "chain c l [a] = (case c a of None \<Rightarrow> False | Some act \<Rightarrow> id_action act = l)"
| "chain c l (a # b # as) =
     ((case c a of
         None \<Rightarrow> False
       | Some act \<Rightarrow>
           id_action act \<noteq> l \<and>
           (case outputs act of [] \<Rightarrow> False | io # ios \<Rightarrow> default_io io = Inr b))
      \<and> chain c l (b # as))"

definition action_call :: "Action \<Rightarrow> stmt option" where
  "action_call act =
     (case split_on CHR ''/'' (type_action act) of
        [ac_obj, ac_type] \<Rightarrow>
          Some (method_call (fix_object_name ac_obj) ac_type []
                  [(None, Attribute (Name ''res'' Load) (id_action act) Load)])
      | parts \<Rightarrow> None)"

fun calls_of :: "actions_cache \<Rightarrow> string list \<Rightarrow> stmt list option" where
  "calls_of c [] = Some []"
| "calls_of c (a # as) =
     (case c a of
        None \<Rightarrow> None
      | Some act \<Rightarrow>
          (case action_call act of
             None \<Rightarrow> None
           | Some s \<Rightarrow> map_option ((#) s) (calls_of c as)))"


text \<open>
  A set of ids that the loop cannot leave: \<open>trapped c l S\<close> holds when every id of \<open>S\<close>
  is a key of the cache, its action has a type of two parts and an id other than \<open>l\<close>,
  and the field \<^verbatim>\<open>default\<close> of its first output is an id of \<open>S\<close> again.
\<close>

definition trapped :: "actions_cache \<Rightarrow> string \<Rightarrow> string set \<Rightarrow> bool" where
  "trapped c l S =
     (\<forall>a\<in>S. case c a of
               None \<Rightarrow> False
             | Some act \<Rightarrow>
                 action_call act \<noteq> None \<and> id_action act \<noteq> l \<and>
                 (case outputs act of
                    [] \<Rightarrow> False
                  | io # ios \<Rightarrow> (case default_io io of Inl s \<Rightarrow> False | Inr b \<Rightarrow> b \<in> S)))"

text \<open>
  The fields of an action that \<^verbatim>\<open>add_logic_to_loop\<close> reads: \<^verbatim>\<open>act.type\<close>,
  \<^verbatim>\<open>act.id\<close> and \<^verbatim>\<open>act.outputs\<close>.
\<close>

definition emitter_view :: "Action \<Rightarrow> string \<times> string \<times> ActionIO list" where
  "emitter_view act = (id_action act, type_action act, outputs act)"

subsection \<open>Simple paths\<close>

text \<open>
  A cache that holds the ids of a list as a simple path: every action is stored under its
  id, its only input is the id before it (\<open>FIRST\<close> for the first, where \<open>prev\<close> is
  \<open>None\<close>), and its only output is the id after it (\<open>LAST\<close> for the last).
  \<open>plain_objects\<close> holds when the type of each of these actions has two parts and an
  object part whose name has no space.
\<close>

fun simple_path :: "actions_cache \<Rightarrow> string option \<Rightarrow> string list \<Rightarrow> bool" where
  "simple_path c prev [] = False"
| "simple_path c prev [a] =
     (case c a of
        None \<Rightarrow> False
      | Some act \<Rightarrow>
          id_action act = a \<and>
          inputs act = [ActionIO (case prev of None \<Rightarrow> Inl FIRST | Some p \<Rightarrow> Inr p)] \<and>
          outputs act = [ActionIO (Inl LAST)])"
| "simple_path c prev (a # b # as) =
     ((case c a of
         None \<Rightarrow> False
       | Some act \<Rightarrow>
           id_action act = a \<and>
           inputs act = [ActionIO (case prev of None \<Rightarrow> Inl FIRST | Some p \<Rightarrow> Inr p)] \<and>
           outputs act = [ActionIO (Inr b)])
      \<and> simple_path c (Some a) (b # as))"

definition plain_objects :: "actions_cache \<Rightarrow> string list \<Rightarrow> bool" where
  "plain_objects c ids =
     (\<forall>a\<in>set ids. case c a of
                      None \<Rightarrow> False
                    | Some act \<Rightarrow>
                        (case split_on CHR ''/'' (type_action act) of
                           [ac_obj, ac_type] \<Rightarrow> CHR '' '' \<notin> set (convert_cc ac_obj)
                         | parts \<Rightarrow> False))"

section \<open>The program text\<close>

text \<open>
  \<^verbatim>\<open>program_src\<close> returns \<^verbatim>\<open>tree_to_str(tree)\<close> (line 171), and
  \<^verbatim>\<open>get_logic_from_source\<close> starts with \<^verbatim>\<open>parse(source_code)\<close> (line 176). The
  printer and the parser are those of the libraries \<^verbatim>\<open>horast\<close> and \<^verbatim>\<open>typed_ast\<close>.
  The definitions above stand for the two functions without these two lines; the
  definitions of this section are about the text that the printer writes for a tree built
  by \<^verbatim>\<open>program_src\<close>, read back by the parser.
\<close>

subsection \<open>The statements of an emitted program\<close>

text \<open>
  The statement that \<^verbatim>\<open>object_instance_from_res\<close> builds (lines 291 to 309), the
  guarded entry point of \<^verbatim>\<open>empty_script_tree\<close>, and the body of the function
  \<^verbatim>\<open>main\<close> of a tree.
\<close>

definition object_instance :: "string \<Rightarrow> string \<Rightarrow> stmt" where
  "object_instance object_id cls_name =
     AnnAssign (Name (fix_object_name object_id) Store) (Name cls_name Load)
       (Some (Subscript (Attribute (Name ''res'' Load) ''objects'' Load) (Str object_id) Load))"

definition entry_guard :: stmt where
  "entry_guard =
     If_stmt (Compare (Name ''__name__'' Load) [Str ''__main__''])
       [Expr (Call (Name ''main'' Load) [] [])] []"

definition main_body :: "Module \<Rightarrow> stmt list option" where
  "main_body tree = (case find_function ''main'' tree of Inl e \<Rightarrow> None | Inr p \<Rightarrow> get_at tree p)"

text \<open>
  The three kinds of statements of an emitted program whose names are names of a program
  text: an import \<^verbatim>\<open>from m import a, b\<close>; the assignments \<^verbatim>\<open>v = C()\<close> and
  \<^verbatim>\<open>v: C = res.objects['id']\<close>; and the call \<^verbatim>\<open>v.method(**res.action_id)\<close>.
\<close>

fun import_ok :: "stmt \<Rightarrow> bool" where
  "import_ok (ImportFrom m names level) =
     (case m of
        None \<Rightarrow> False
      | Some module \<Rightarrow>
          dotted_name module \<and> names \<noteq> [] \<and>
          list_all (\<lambda>a. is_identifier (alias_name a) \<and> asname a = None) names \<and> level = 0)"
| "import_ok s = False"

fun index_str :: "expr \<Rightarrow> string option" where
  "index_str (Subscript v (Str s) c) = Some s"
| "index_str e = None"

fun assign_ok :: "stmt \<Rightarrow> bool" where
  "assign_ok (Assign targets v) =
     (case (map id_attr targets, func_id v) of
        ([Some name], Some cls) \<Rightarrow>
          Assign targets v = Assign [Name name Store] (Call (Name cls Load) [] []) \<and>
          is_identifier name \<and> is_identifier cls
      | other \<Rightarrow> False)"
| "assign_ok (AnnAssign target ann v) =
     (case (id_attr target, id_attr ann, Option.bind v index_str) of
        (Some name, Some cls, Some object_id) \<Rightarrow>
          AnnAssign target ann v =
            AnnAssign (Name name Store) (Name cls Load)
              (Some (Subscript (Attribute (Name ''res'' Load) ''objects'' Load)
                       (Str object_id) Load)) \<and>
          is_identifier name \<and> is_identifier cls
      | other \<Rightarrow> False)"
| "assign_ok s = False"

fun call_ok :: "stmt \<Rightarrow> bool" where
  "call_ok (Expr val) =
     (case call_parts val of
        None \<Rightarrow> False
      | Some (obj_id, method, action_id) \<Rightarrow>
          val = Call (Attribute (Name obj_id Load) method Load) []
                  [(None, Attribute (Name ''res'' Load) action_id Load)] \<and>
          is_identifier obj_id \<and> is_identifier method \<and> is_identifier action_id)"
| "call_ok s = False"

text \<open>
  An annotated assignment whose target is a name with a hyphen: the printer writes the
  name as it is, and \<^verbatim>\<open>my-robot: Robot = ...\<close> is no statement.
\<close>

fun hyphen_target :: "stmt \<Rightarrow> bool" where
  "hyphen_target (AnnAssign target ann v) =
     (case id_attr target of None \<Rightarrow> False | Some name \<Rightarrow> hyphen_name name)"
| "hyphen_target s = False"

subsection \<open>The skeleton of a tree\<close>

text \<open>
  The imports, the assignments and the loop of a tree that has the skeleton of
  \<^verbatim>\<open>empty_script_tree\<close>: statements, then the function \<^verbatim>\<open>main\<close> whose body ends
  with the loop \<^verbatim>\<open>while True\<close>, then the guarded entry point.
\<close>

fun split_main :: "stmt \<Rightarrow> (stmt list \<times> stmt list) option" where
  "split_main (FunctionDef name as body decorator_list returns) =
     (if name = ''main'' \<and> as = arguments [] None [] None \<and> decorator_list = [] \<and>
         returns = Some (NameConstant PyNone)
      then
        (case rev body of
           [] \<Rightarrow> None
         | node # front \<Rightarrow>
             (case node of
                While test loop orelse \<Rightarrow>
                  if test = NameConstant PyTrue \<and> orelse = [] then Some (rev front, loop)
                  else None
              | other \<Rightarrow> None))
      else None)"
| "split_main s = None"

definition split_script :: "Module \<Rightarrow> (stmt list \<times> stmt list \<times> stmt list) option" where
  "split_script tree =
     (case rev tree of
        guard # main # front \<Rightarrow>
          if guard = entry_guard then
            (case split_main main of
               None \<Rightarrow> None
             | Some (assigns, loop) \<Rightarrow> Some (rev front, assigns, loop))
          else None
      | other \<Rightarrow> None)"

subsection \<open>Printing and parsing\<close>

text \<open>
  \<open>parse_emitted tree\<close> stands for \<^verbatim>\<open>parse(tree_to_str(tree))\<close>. A tree with the
  skeleton above whose statements are imports, assignments and calls with names of a
  program text is printed as a program that the parser reads as the same tree. When one of
  the assignments of a tree of imports and assignments has a name with a hyphen as its
  target, the text is no program and the parser raises \<^verbatim>\<open>SyntaxError\<close>. Every other
  tree is left open: the result is \<open>None\<close>.
\<close>

definition parse_emitted :: "Module \<Rightarrow> (error + Module) option" where
  "parse_emitted tree =
     (case split_script tree of
        None \<Rightarrow> None
      | Some (imports, assigns, loop) \<Rightarrow>
          if list_all import_ok imports \<and> list_all assign_ok assigns \<and> loop \<noteq> [] \<and>
             list_all call_ok loop
          then Some (Inr tree)
          else if list_all is_import imports \<and> list_all is_assign assigns \<and>
                  list_ex hyphen_target assigns
          then Some (Inl SyntaxError)
          else None)"

text \<open>
  \<^verbatim>\<open>get_logic_from_source\<close> on the text that the printer writes for a tree: line 176,
  then the rest of the function. The exception of the parser leaves the actions of the
  project as they are.
\<close>

definition get_logic_from_text :: "Module \<Rightarrow> Project \<Rightarrow> (error option \<times> actions_cache) option" where
  "get_logic_from_text tree project =
     (case parse_emitted tree of
        None \<Rightarrow> None
      | Some (Inl e) \<Rightarrow> Some (Some e, fst (get_actions_cache project))
      | Some (Inr tree') \<Rightarrow> Some (get_logic_from_source tree' project))"

text \<open>
  A scene object whose names in the program are names of a program text: the variable,
  the class, and the module that \<^verbatim>\<open>program_src\<close> imports the class from.
\<close>

definition scene_object_ok :: "string set \<Rightarrow> SceneObject \<Rightarrow> bool" where
  "scene_object_ok built_in_objects obj =
     (is_identifier (fix_object_name (id_object obj)) \<and> is_identifier (type_object obj) \<and>
      dotted_name (if type_object obj \<in> built_in_objects then ''arcor2.object_types''
                   else ''object_types.'' @ convert_cc (type_object obj)))"
section \<open>Example inputs\<close>

text \<open>
  The pieces of the object type \<^verbatim>\<open>Robot\<close> of \<^verbatim>\<open>arcor2/object_types/robot.py\<close>: a
  method definition with its parameters and decorators, and the assignment
  \<^verbatim>\<open>move_to.__action__ = ActionMetadata(free=True, blocking=True)\<close>.
\<close>

definition metadata_assign :: "string \<Rightarrow> stmt" where
  "metadata_assign method =
     Assign [Attribute (Name method Load) ''__action__'' Store]
       (Call (Name ''ActionMetadata'' Load) []
          [(Some ''free'', NameConstant PyTrue), (Some ''blocking'', NameConstant PyTrue)])"

definition method_def :: "string \<Rightarrow> arg list \<Rightarrow> expr list \<Rightarrow> stmt" where
  "method_def name as decorator_list =
     FunctionDef name (arguments as None [] None) [Pass] decorator_list (Some (NameConstant PyNone))"

definition free_blocking :: ActionMetadata where
  "free_blocking = new_ActionMetadata\<lparr>free := Const PyTrue, blocking := Const PyTrue\<rparr>"

text \<open>
  An action with one input and one output, a project of such actions, and a scene of one
  object of the built-in type \<^verbatim>\<open>Robot\<close>.
\<close>

definition ex_action ::
  "string \<Rightarrow> string \<Rightarrow> ActionIOEnum + string \<Rightarrow> ActionIOEnum + string \<Rightarrow> Action" where
  "ex_action i t inp out =
     \<lparr>id_action = i, type_action = t, inputs = [ActionIO inp], outputs = [ActionIO out]\<rparr>"

definition ex_project :: "Action list \<Rightarrow> Project" where
  "ex_project acts = \<lparr>id_project = ''p1'', actions = acts, parameters = []\<rparr>"

definition ex_scene :: "string \<Rightarrow> Scene" where
  "ex_scene object_id = \<lparr>objects = [\<lparr>id_object = object_id, type_object = ''Robot''\<rparr>]\<rparr>"

text \<open>
  The program that the emitter produces for the scene of the object \<^verbatim>\<open>robot\<close>, with a
  given body of the loop, and the call \<^verbatim>\<open>robot.move_to(**res.a)\<close>.
\<close>

definition ex_script :: "stmt list \<Rightarrow> Module" where
  "ex_script loop =
     [ImportFrom (Some ''arcor2.object_types'') [import_alias ''Robot'' None] 0,
      ImportFrom (Some ''resources'') [import_alias ''Resources'' None] 0,
      FunctionDef ''main'' (arguments [] None [] None)
        [Assign [Name ''res'' Store] (Call (Name ''Resources'' Load) [] []),
         AnnAssign (Name ''robot'' Store) (Name ''Robot'' Load)
           (Some (Subscript (Attribute (Name ''res'' Load) ''objects'' Load) (Str ''robot'') Load)),
         While (NameConstant PyTrue) loop []]
        [] (Some (NameConstant PyNone)),
      If_stmt (Compare (Name ''__name__'' Load) [Str ''__main__''])
        [Expr (Call (Name ''main'' Load) [] [])] []]"

definition ex_call :: "string \<Rightarrow> stmt" where
  "ex_call a = method_call ''robot'' ''move_to'' [] [(None, Attribute (Name ''res'' Load) a Load)]"

text \<open>The chain of two actions \<^verbatim>\<open>a1\<close> and \<^verbatim>\<open>a2\<close> on the object \<^verbatim>\<open>robot\<close>.\<close>

definition ex_chain :: Project where
  "ex_chain = ex_project [ex_action ''a1'' ''robot/move_to'' (Inl FIRST) (Inr ''a2''),
                          ex_action ''a2'' ''robot/move_to'' (Inr ''a1'') (Inl LAST)]"


text \<open>
  The program that the emitter produces for the scene of one object of the type
  \<^verbatim>\<open>Robot\<close> with the variable \<open>var\<close> and the id \<open>object_id\<close>, and the call
  \<^verbatim>\<open>var.move_to(**res.a)\<close>.
\<close>

definition ex_script_of :: "string \<Rightarrow> string \<Rightarrow> stmt list \<Rightarrow> Module" where
  "ex_script_of var object_id loop =
     [ImportFrom (Some ''arcor2.object_types'') [import_alias ''Robot'' None] 0,
      ImportFrom (Some ''resources'') [import_alias ''Resources'' None] 0,
      FunctionDef ''main'' (arguments [] None [] None)
        [Assign [Name ''res'' Store] (Call (Name ''Resources'' Load) [] []),
         AnnAssign (Name var Store) (Name ''Robot'' Load)
           (Some (Subscript (Attribute (Name ''res'' Load) ''objects'' Load) (Str object_id) Load)),
         While (NameConstant PyTrue) loop []]
        [] (Some (NameConstant PyNone)),
      If_stmt (Compare (Name ''__name__'' Load) [Str ''__main__''])
        [Expr (Call (Name ''main'' Load) [] [])] []]"

definition ex_call_of :: "string \<Rightarrow> string \<Rightarrow> stmt" where
  "ex_call_of var a = method_call var ''move_to'' [] [(None, Attribute (Name ''res'' Load) a Load)]"

text \<open>The chain of two actions \<^verbatim>\<open>a1\<close> and \<^verbatim>\<open>a2\<close> on the object \<open>object_id\<close>.\<close>

definition ex_chain_of :: "string \<Rightarrow> Project" where
  "ex_chain_of object_id =
     ex_project [ex_action ''a1'' (object_id @ ''/move_to'') (Inl FIRST) (Inr ''a2''),
                 ex_action ''a2'' (object_id @ ''/move_to'') (Inr ''a1'') (Inl LAST)]"
section \<open>Spaces in identifiers\<close>

lemma lower_char_in: "lower_char c = c \<or> lower_char c \<in> snd ` set lower_table"
proof (cases "map_of lower_table c")
  case None
  then have "lower_char c = c" by (simp only: lower_char_def option.case)
  then show ?thesis by (rule disjI1)
next
  case (Some l)
  then have "(c, l) \<in> set lower_table" by (rule map_of_SomeD)
  then have "l \<in> snd ` set lower_table" by force
  moreover have "lower_char c = l" using Some by (simp only: lower_char_def option.case)
  ultimately show ?thesis by simp
qed

lemma lower_char_space_fix: "lower_char (CHR '' '') = CHR '' ''"
  by (simp add: lower_char_def lower_table_def)

lemma lower_char_space: "lower_char c = CHR '' '' \<longleftrightarrow> c = CHR '' ''"
proof
  assume a: "lower_char c = CHR '' ''"
  have "CHR '' '' \<notin> snd ` set lower_table" by (simp add: lower_table_def)
  with a lower_char_in [of c] show "c = CHR '' ''" by metis
next
  assume "c = CHR '' ''"
  then show "lower_char c = CHR '' ''" by (simp only: lower_char_space_fix)
qed

lemma set_first_cap_sub: "set (first_cap_sub s) - {CHR ''_''} = set s - {CHR ''_''}"
proof (induction s rule: first_cap_sub.induct)
  case (1 c u l rest)
  have r: "set rest = set (takeWhile is_lower rest) \<union> set (dropWhile is_lower rest)"
    by (metis set_append takeWhile_dropWhile_id)
  show ?case
  proof (cases "c \<noteq> CHR 0x0A \<and> is_upper u \<and> is_lower l")
    case True
    then have "set (first_cap_sub (dropWhile is_lower rest)) - {CHR ''_''}
                 = set (dropWhile is_lower rest) - {CHR ''_''}"
      using 1(1) by blast
    moreover have "first_cap_sub (c # u # l # rest) =
       c # CHR ''_'' # u # l # takeWhile is_lower rest @ first_cap_sub (dropWhile is_lower rest)"
      using True by simp
    ultimately show ?thesis using r by auto
  next
    case False
    then have "set (first_cap_sub (u # l # rest)) - {CHR ''_''} = set (u # l # rest) - {CHR ''_''}"
      using 1(2) by blast
    moreover have "first_cap_sub (c # u # l # rest) = c # first_cap_sub (u # l # rest)"
      using False by auto
    ultimately show ?thesis by auto
  qed
qed simp_all

lemma set_all_cap_sub: "set (all_cap_sub s) - {CHR ''_''} = set s - {CHR ''_''}"
proof (induction s rule: all_cap_sub.induct)
  case (1 a b rest)
  show ?case
  proof (cases "(is_lower a \<or> is_digit a) \<and> is_upper b")
    case True
    then have "set (all_cap_sub rest) - {CHR ''_''} = set rest - {CHR ''_''}"
      using 1(1) by blast
    moreover have "all_cap_sub (a # b # rest) = a # CHR ''_'' # b # all_cap_sub rest"
      using True by simp
    ultimately show ?thesis by auto
  next
    case False
    then have "set (all_cap_sub (b # rest)) - {CHR ''_''} = set (b # rest) - {CHR ''_''}"
      using 1(2) by blast
    moreover have "all_cap_sub (a # b # rest) = a # all_cap_sub (b # rest)"
      using False by auto
    ultimately show ?thesis by auto
  qed
qed simp_all

lemma space_image_lower: "CHR '' '' \<in> lower_char ` S \<longleftrightarrow> CHR '' '' \<in> S"
proof
  assume "CHR '' '' \<in> lower_char ` S"
  then obtain x where "x \<in> S" "lower_char x = CHR '' ''" by force
  then show "CHR '' '' \<in> S" by (simp add: lower_char_space)
next
  assume "CHR '' '' \<in> S"
  then show "CHR '' '' \<in> lower_char ` S" using lower_char_space_fix by force
qed

text \<open>\<^verbatim>\<open>convert_cc\<close> neither adds nor removes a space.\<close>

lemma space_convert_cc: "CHR '' '' \<in> set (convert_cc s) \<longleftrightarrow> CHR '' '' \<in> set s"
proof -
  have "CHR '' '' \<in> set (convert_cc s) \<longleftrightarrow> CHR '' '' \<in> set (all_cap_sub (first_cap_sub s))"
    by (simp add: convert_cc_def space_image_lower)
  also have "\<dots> \<longleftrightarrow> CHR '' '' \<in> set (all_cap_sub (first_cap_sub s)) - {CHR ''_''}" by simp
  also have "\<dots> \<longleftrightarrow> CHR '' '' \<in> set s - {CHR ''_''}"
    by (simp only: set_all_cap_sub set_first_cap_sub)
  finally show ?thesis by simp
qed

lemma replace_id: "a \<noteq> b \<Longrightarrow> map (\<lambda>c. if c = a then b else c) xs = xs \<longleftrightarrow> a \<notin> set xs"
  by (induction xs) auto

lemma fix_object_name_eq:
  "fix_object_name s = convert_cc s \<longleftrightarrow> CHR '' '' \<notin> set (convert_cc s)"
  unfolding fix_object_name_def by (rule replace_id) simp

section \<open>Class definitions in a source unit\<close>

lemma cls_def_loop_None:
  "cls_def_loop body None =
     (case List.find is_ClassDef body of
        None \<Rightarrow> Inl (GenerateSourceException ''No class definition!'')
      | Some c \<Rightarrow> Inr c)"
  by (induction body) simp_all

text \<open>
  C4, at the input of two class definitions in one source unit
  (\<^verbatim>\<open>class A: pass\<close> followed by \<^verbatim>\<open>class B: pass\<close>): \<^verbatim>\<open>object_cls_def\<close> returns the
  first class and raises nothing, because the loop leaves with \<^verbatim>\<open>break\<close> at the first
  class definition.
\<close>

theorem object_cls_def_two_classes:
  "object_cls_def [ClassDef ''A'' [] [Pass] [], ClassDef ''B'' [] [Pass] []]
     = Inr (ClassDef ''A'' [] [Pass] [])"
  by (simp add: object_cls_def_def)

lemmas ex_defs = metadata_assign_def method_def_def free_blocking_def new_ActionMetadata_def
  setattr_meta_def object_cls_def_def get_object_actions_def


section \<open>Action marker and metadata table\<close>

lemma has_action_decorator_marker:
  "has_action_decorator ds = Inr b \<Longrightarrow> b = carries_marker ds"
  by (induction ds) (auto simp: carries_marker_def split: option.splits if_splits)

lemma object_actions_loop_mismatch:
  assumes "FunctionDef name as b ds r \<in> set body"
    and "carries_marker ds \<noteq> (name \<in> dom action_attr)"
  shows "isl (object_actions_loop action_attr body ret)"
  using assms
proof (induction action_attr body ret rule: object_actions_loop.induct)
  case (1 action_attr ret)
  then show ?case by simp
next
  case (2 action_attr name' as' body' ds' r' rest ret)
  show ?case
  proof (cases "has_action_decorator ds'")
    case (Inl e)
    then show ?thesis by simp
  next
    case (Inr mk)
    note mk = this has_action_decorator_marker [OF this]
    show ?thesis
    proof (cases "FunctionDef name as b ds r = FunctionDef name' as' body' ds' r'")
      case True
      with "2.prems"(2) mk show ?thesis by (cases mk) (auto split: option.splits)
    next
      case False
      with "2.prems"(1) have mem: "FunctionDef name as b ds r \<in> set rest" by auto
      show ?thesis
      proof (cases mk)
        case True
        show ?thesis
        proof (cases "action_attr name'")
          case None
          with Inr True show ?thesis by simp
        next
          case (Some m)
          show ?thesis
          proof (cases "action_args_loop name' (args as') []")
            case (Inl e)
            with Inr True Some show ?thesis by simp
          next
            case aa: (Inr aa)
            have "isl (object_actions_loop action_attr rest
                         (ret @ [\<lparr>name_action = name', meta = m, action_args = aa\<rparr>]))"
              by (rule "2.IH"(1) [OF mk(1) _ Some aa mem "2.prems"(2)]) (simp add: True)
            with mk True Some aa show ?thesis by simp
          qed
        qed
      next
        case False
        show ?thesis
        proof (cases "name' \<in> dom action_attr")
          case True
          with Inr False show ?thesis by simp
        next
          case nd: False
          have "isl (object_actions_loop action_attr rest ret)"
            by (rule "2.IH"(2) [OF mk(1) _ nd mem "2.prems"(2)]) (simp add: False)
          with mk False nd show ?thesis by simp
        qed
      qed
    qed
  qed
qed simp_all


text \<open>
  C5, as amended: for a method defined in the class body, \<^verbatim>\<open>get_object_actions\<close> raises
  in both directions of a mismatch between the action marker and the metadata table built
  by the first loop: a marked method without an entry, and an unmarked method with one.
\<close>

theorem get_object_actions_mismatch:
  assumes "object_cls_def object_source = Inr tree"
    and "action_attr_loop (body_of tree) Map.empty = Inr action_attr"
    and "FunctionDef name as b ds r \<in> set (body_of tree)"
    and "carries_marker ds \<noteq> (name \<in> dom action_attr)"
  shows "isl (get_object_actions object_source)"
  using assms object_actions_loop_mismatch [OF assms(3,4), of "[]"]
  by (simp add: get_object_actions_def)

text \<open>
  Witness for C5: a marked method without metadata, and an unmarked method with metadata.
\<close>

theorem get_object_actions_mismatch_witness:
  "isl (get_object_actions
          [ClassDef ''Robot'' [] [method_def ''move_to'' [arg ''self'' None] [Name ''action'' Load]] []]) \<and>
   isl (get_object_actions
          [ClassDef ''Robot'' [] [method_def ''move_to'' [arg ''self'' None] [], metadata_assign ''move_to''] []])"
  using
    get_object_actions_mismatch
      [where object_source =
          "[ClassDef ''Robot'' [] [method_def ''move_to'' [arg ''self'' None] [Name ''action'' Load]] []]"
        and tree = "ClassDef ''Robot'' [] [method_def ''move_to'' [arg ''self'' None] [Name ''action'' Load]] []"
        and action_attr = Map.empty and name = "''move_to''"
        and as = "arguments [arg ''self'' None] None [] None" and b = "[Pass]"
        and ds = "[Name ''action'' Load]" and r = "Some (NameConstant PyNone)"]
    get_object_actions_mismatch
      [where object_source =
          "[ClassDef ''Robot'' [] [method_def ''move_to'' [arg ''self'' None] [], metadata_assign ''move_to''] []]"
        and tree = "ClassDef ''Robot'' [] [method_def ''move_to'' [arg ''self'' None] [], metadata_assign ''move_to''] []"
        and action_attr = "[''move_to'' \<mapsto> free_blocking]" and name = "''move_to''"
        and as = "arguments [arg ''self'' None] None [] None" and b = "[Pass]"
        and ds = "[]" and r = "Some (NameConstant PyNone)"]
  by (simp add: metadata_assign_def method_def_def free_blocking_def new_ActionMetadata_def
        setattr_meta_def object_cls_def_def carries_marker_def)

text \<open>
  Counterexample to C5 as stated: a metadata entry naming a method that the class does not
  define is accepted. The second loop looks at method definitions only.
\<close>

theorem get_object_actions_unused_metadata:
  "action_attr_loop [metadata_assign ''move_to''] Map.empty = Inr [''move_to'' \<mapsto> free_blocking] \<and>
   get_object_actions [ClassDef ''Robot'' [Name ''Generic'' Load] [metadata_assign ''move_to''] []] = Inr []"
  by (simp add: ex_defs)


section \<open>Parameters of an action method\<close>





text \<open>
  An annotation that is not a name: every parameter is annotated, one of them with
  \<^verbatim>\<open>List[ActionPoint]\<close>, and \<^verbatim>\<open>aarg.annotation.id\<close> (line 88) raises
  \<^verbatim>\<open>AttributeError\<close>.
\<close>

lemma get_object_actions_subscript_annotation:
  "get_object_actions
     [ClassDef ''Robot'' []
        [method_def ''move_to''
           [arg ''self'' None,
            arg ''targets'' (Some (Subscript (Name ''List'' Load) (Name ''ActionPoint'' Load) Load))]
           [Name ''action'' Load],
         metadata_assign ''move_to''] []]
     = Inl AttributeError"
  by (simp add: ex_defs)



section \<open>The walk of the recovery\<close>

lemma mutate_apply:
  "mutate c k f k' = (if k' = k then map_option f (c k) else c k')"
  by (auto simp: mutate_def split: option.splits)

lemma link_action_first:
  assumes "c a = Some action"
  shows "link_action n 0 a action la0 c =
           (None, c(a \<mapsto> action\<lparr>inputs := [ActionIO (Inl FIRST)],
                                outputs := (if n = 1 then [ActionIO (Inl LAST)] else [])\<rparr>))"
  using assms by (auto simp: link_action_def Let_def mutate_apply fun_eq_iff)

lemma link_action_next:
  assumes "c a = Some action" and "c (id_action l) = Some la" and "id_action l \<noteq> a" and "0 < idx"
  shows "link_action n idx a action (Some l) c =
           (None, c(a \<mapsto> action\<lparr>inputs := [ActionIO (Inr (id_action l))],
                                outputs := (if Suc idx = n then [ActionIO (Inl LAST)] else [])\<rparr>,
                    id_action l \<mapsto> la\<lparr>outputs := outputs la @ [ActionIO (Inr (id_action action))]\<rparr>))"
  using assms by (auto simp: link_action_def Let_def mutate_apply fun_eq_iff)


lemma link_action_first_link:
  assumes "c a = Some action"
  shows "link_action n 0 a action la0 c = (None, link n 0 a None c)"
  using assms by (auto simp: link_action_def link_def Let_def mutate_apply fun_eq_iff)

lemma link_action_next_link:
  assumes "c a = Some action" and "c (id_action l) \<noteq> None" and "id_action l \<noteq> a" and "0 < idx"
    and "id_action action = a"
  shows "link_action n idx a action (Some l) c = (None, link n idx a (Some (id_action l)) c)"
  using assms by (auto simp: link_action_def link_def Let_def mutate_apply fun_eq_iff)

lemma mutate_fields:
  assumes "\<And>x. id_action (f x) = id_action x" and "\<And>x. type_action (f x) = type_action x"
  shows "map_option id_action (mutate c k f k') = map_option id_action (c k') \<and>
         map_option type_action (mutate c k f k') = map_option type_action (c k')"
  using assms by (cases "c k") (auto simp: mutate_def)

lemma link_action_fields:
  "map_option id_action (snd (link_action n idx a action lst c) k) = map_option id_action (c k) \<and>
   map_option type_action (snd (link_action n idx a action lst c) k) = map_option type_action (c k)"
  by (simp add: link_action_def Let_def mutate_fields split: option.splits)

lemma link_fields:
  "map_option id_action (link n idx a prev c k) = map_option id_action (c k) \<and>
   map_option type_action (link n idx a prev c k) = map_option type_action (c k)"
  by (simp add: link_def Let_def mutate_fields split: option.splits)

lemma keyed_fields:
  assumes "keyed_by_id c" and "\<And>k. map_option id_action (c' k) = map_option id_action (c k)"
  shows "keyed_by_id c'"
  unfolding keyed_by_id_def
proof (intro allI impI)
  fix k a assume "c' k = Some a"
  then have "map_option id_action (c k) = Some (id_action a)" using assms(2) [of k] by simp
  then obtain b where "c k = Some b" "id_action b = id_action a" by auto
  with assms(1) show "id_action a = k" by (auto simp: keyed_by_id_def)
qed

lemma keyed_link: "keyed_by_id c \<Longrightarrow> keyed_by_id (link n idx a prev c)"
  by (rule keyed_fields) (simp_all add: link_fields)

lemma accepted_fields:
  assumes "\<And>k. map_option type_action (c' k) = map_option type_action (c k)"
  shows "accepted c' t = accepted c t"
proof (cases t)
  case (Expr val)
  show ?thesis
  proof (cases "call_parts val")
    case None
    with Expr show ?thesis by simp
  next
    case (Some r)
    obtain ob m a where r: "r = (ob, m, a)" by (cases r)
    from assms [of a] show ?thesis
      by (cases "c a"; cases "c' a") (auto simp: Expr Some r)
  qed
qed simp_all

lemma walk_step_success:
  assumes "fst (logic_from_loop n idx (t # ss) c found lst) = None"
  obtains val ob m a action x y c1 where
    "t = Expr val" "call_parts val = Some (ob, m, a)" "a \<notin> found" "c a = Some action"
    "split_on CHR ''/'' (type_action action) = [x, y]" "convert_cc x = ob" "y = m"
    "link_action n idx a action lst c = (None, c1)"
    "logic_from_loop n idx (t # ss) c found lst =
       logic_from_loop n (Suc idx) ss c1 (insert a found) (Some action)"
proof (cases t)
  case (Expr val)
  show ?thesis
  proof (cases "call_parts val")
    case None
    with assms Expr show ?thesis by simp
  next
    case (Some r)
    obtain ob m a where r: "r = (ob, m, a)" by (cases r)
    note cp = Some [unfolded r]
    from assms Expr cp have nf: "a \<notin> found" by (auto split: if_splits)
    from assms Expr cp nf obtain action where ca: "c a = Some action"
      by (cases "c a") auto
    from assms Expr cp nf ca obtain x y where sp: "split_on CHR ''/'' (type_action action) = [x, y]"
      by (auto split: list.splits)
    from assms Expr cp nf ca sp have chk: "convert_cc x = ob" "y = m"
      by (auto split: if_splits)
    obtain e c1 where la: "link_action n idx a action lst c = (e, c1)"
      by (cases "link_action n idx a action lst c")
    from assms Expr cp nf ca sp chk la have e: "e = None" by (cases e) auto
    from Expr cp nf ca sp chk la e
    have "logic_from_loop n idx (t # ss) c found lst =
       logic_from_loop n (Suc idx) ss c1 (insert a found) (Some action)" by simp
    with that Expr cp nf ca sp chk la e show ?thesis by blast
  qed
qed (use assms in simp_all)

lemma link_action_success:
  assumes "link_action n idx a action lst c = (None, c1)" and "c a = Some action"
    and "id_action action = a"
    and "(idx = 0 \<and> prev = None) \<or>
         (0 < idx \<and> (\<exists>l. lst = Some l \<and> prev = Some (id_action l) \<and> id_action l \<noteq> a))"
  shows "c1 = link n idx a prev c"
proof (cases "idx = 0")
  case True
  with assms show ?thesis
    using link_action_first_link [of c a action n lst] by simp
next
  case False
  with assms(4) obtain l where l: "lst = Some l" "prev = Some (id_action l)" "id_action l \<noteq> a" "0 < idx"
    by auto
  have "c (id_action l) \<noteq> None"
  proof
    assume "c (id_action l) = None"
    with assms(1,2) l show False
      by (simp add: link_action_def Let_def mutate_apply)
  qed
  from link_action_next_link [of c a action l idx n] this assms l show ?thesis by simp
qed

lemma loop_ids_Cons:
  "stmt_action_id t = Some a \<Longrightarrow> loop_ids (t # ss) = a # loop_ids ss"
  by (simp add: loop_ids_def map_filter_simps)

lemma walk_relink:
  assumes "fst (logic_from_loop n idx ss c found lst) = None" and "keyed_by_id c"
    and "(idx = 0 \<and> prev = None) \<or>
         (0 < idx \<and> (\<exists>l. lst = Some l \<and> prev = Some (id_action l) \<and> id_action l \<in> found))"
  shows "snd (logic_from_loop n idx ss c found lst) = relink n idx (loop_ids ss) prev c
       \<and> map stmt_action_id ss = map Some (loop_ids ss) \<and> distinct (loop_ids ss)
       \<and> set (loop_ids ss) \<inter> found = {} \<and> (\<forall>t\<in>set ss. accepted c t)"
  using assms
proof (induction ss arbitrary: idx c found lst prev)
  case Nil
  then show ?case by (simp add: loop_ids_def map_filter_simps)
next
  case (Cons t ss)
  from walk_step_success [OF Cons.prems(1)]
  obtain val ob m a action x y c1 where
    t: "t = Expr val" and cp: "call_parts val = Some (ob, m, a)" and nf: "a \<notin> found"
    and ca: "c a = Some action"
    and sp: "split_on CHR ''/'' (type_action action) = [x, y]" and chk: "convert_cc x = ob" "y = m"
    and la: "link_action n idx a action lst c = (None, c1)"
    and step: "logic_from_loop n idx (t # ss) c found lst =
       logic_from_loop n (Suc idx) ss c1 (insert a found) (Some action)"
    by blast
  have ida: "id_action action = a" using Cons.prems(2) ca by (simp add: keyed_by_id_def)
  have sid: "stmt_action_id t = Some a" using t cp by simp
  have acc: "accepted c t" using t cp ca sp chk by simp
  have c1: "c1 = link n idx a prev c"
  proof (rule link_action_success [OF la ca ida])
    from Cons.prems(3) nf
    show "(idx = 0 \<and> prev = None) \<or>
         (0 < idx \<and> (\<exists>l. lst = Some l \<and> prev = Some (id_action l) \<and> id_action l \<noteq> a))"
      by auto
  qed
  have k1: "keyed_by_id c1" unfolding c1 by (rule keyed_link [OF Cons.prems(2)])
  have s1: "fst (logic_from_loop n (Suc idx) ss c1 (insert a found) (Some action)) = None"
    using Cons.prems(1) step by simp
  have st: "(Suc idx = 0 \<and> Some a = None) \<or>
         (0 < Suc idx \<and> (\<exists>l. Some action = Some l \<and> Some a = Some (id_action l)
              \<and> id_action l \<in> insert a found))"
    using ida by simp
  note IH = Cons.IH [OF s1 k1 st]
  have accs: "\<forall>t\<in>set ss. accepted c t"
  proof
    fix u assume "u \<in> set ss"
    with IH have "accepted c1 u" by blast
    moreover have "accepted c1 u = accepted c u"
      unfolding c1 by (rule accepted_fields) (simp add: link_fields)
    ultimately show "accepted c u" by simp
  qed
  have ids: "loop_ids (t # ss) = a # loop_ids ss" by (rule loop_ids_Cons [OF sid])
  from IH have r1: "snd (logic_from_loop n idx (t # ss) c found lst)
                      = relink n idx (loop_ids (t # ss)) prev c"
    by (simp add: step ids c1)
  from IH sid have r2: "map stmt_action_id (t # ss) = map Some (loop_ids (t # ss))"
    by (simp add: ids)
  from IH have r3: "distinct (loop_ids (t # ss))" by (auto simp: ids)
  from IH nf have r4: "set (loop_ids (t # ss)) \<inter> found = {}" by (auto simp: ids)
  from acc accs have r5: "\<forall>u\<in>set (t # ss). accepted c u" by simp
  from r1 r2 r3 r4 r5 show ?case by blast
qed

lemma link_apply:
  "link n idx a prev c k =
     (if k = a then
        map_option (\<lambda>x. (if prev = Some a
                         then x\<lparr>inputs := [ActionIO (Inr a)],
                                outputs := (if Suc idx = n then [ActionIO (Inl LAST)] else [])
                                             @ [ActionIO (Inr a)]\<rparr>
                         else x\<lparr>inputs := [ActionIO (case prev of None \<Rightarrow> Inl FIRST | Some p \<Rightarrow> Inr p)],
                                outputs := (if Suc idx = n then [ActionIO (Inl LAST)] else [])\<rparr>)) (c k)
      else if Some k = prev then map_option (\<lambda>x. x\<lparr>outputs := outputs x @ [ActionIO (Inr a)]\<rparr>) (c k)
      else c k)"
  by (cases prev; cases "c k") (auto simp: link_def Let_def mutate_apply)

lemma relink_closed:
  assumes "distinct as" and "\<forall>p. prev = Some p \<longrightarrow> p \<notin> set as" and "idx + length as \<le> n"
  shows "relink n idx as prev c k =
     (if k \<in> set as then
        map_option (\<lambda>x. x\<lparr>inputs := [ActionIO (pred_io prev as k)],
                          outputs := succ_out (idx + length as = n) as k\<rparr>) (c k)
      else if Some k = prev \<and> as \<noteq> [] then
        map_option (\<lambda>x. x\<lparr>outputs := outputs x @ [ActionIO (Inr (hd as))]\<rparr>) (c k)
      else c k)"
  using assms
proof (induction as arbitrary: idx prev c)
  case Nil
  then show ?case by simp
next
  case (Cons a as)
  have d: "distinct as" and na: "a \<notin> set as" using Cons.prems(1) by simp_all
  have pa: "prev \<noteq> Some a" and pas: "\<forall>p. prev = Some p \<longrightarrow> p \<notin> set as"
    using Cons.prems(2) by auto
  have le: "Suc idx + length as \<le> n" using Cons.prems(3) by simp
  have fin: "(Suc idx + length as = n) = (idx + length (a # as) = n)" by simp
  note IH = Cons.IH [of "Some a" "Suc idx" "link n idx a prev c", OF d _ le, unfolded fin]
  have step: "relink n (Suc idx) as (Some a) (link n idx a prev c) k =
     (if k \<in> set as then
        map_option (\<lambda>x. x\<lparr>inputs := [ActionIO (pred_io (Some a) as k)],
                          outputs := succ_out (idx + length (a # as) = n) as k\<rparr>)
          (link n idx a prev c k)
      else if Some k = Some a \<and> as \<noteq> [] then
        map_option (\<lambda>x. x\<lparr>outputs := outputs x @ [ActionIO (Inr (hd as))]\<rparr>) (link n idx a prev c k)
      else link n idx a prev c k)"
    using IH na by simp
  show ?case
  proof (cases "k \<in> set as")
    case True
    then have ka: "k \<noteq> a" and kp: "Some k \<noteq> prev" using na pas by auto
    from True obtain b bs where as: "as = b # bs" by (cases as) auto
    have "succ_out (idx + length (a # as) = n) (a # as) k = succ_out (idx + length (a # as) = n) as k"
      using ka by (simp add: as)
    with True ka kp show ?thesis by (simp add: step link_apply)
  next
    case False
    show ?thesis
    proof (cases "k = a")
      case True
      show ?thesis
      proof (cases "as = []")
        case True
        with \<open>k = a\<close> False pa le Cons.prems(3) show ?thesis
          by (cases "c a") (auto simp: step link_apply)
      next
        case ne: False
        then obtain b bs where as: "as = b # bs" by (cases as) auto
        have so: "succ_out (idx + length (a # as) = n) (a # as) a = [ActionIO (Inr (hd as))]"
          by (simp add: as)
        have nfin: "Suc idx \<noteq> n" using le ne by (cases as) auto
        have pi: "pred_io prev (a # as) a = (case prev of None \<Rightarrow> Inl FIRST | Some p \<Rightarrow> Inr p)"
          by simp
        have "relink n (Suc idx) as (Some a) (link n idx a prev c) a =
                map_option (\<lambda>x. x\<lparr>outputs := outputs x @ [ActionIO (Inr (hd as))]\<rparr>)
                  (link n idx a prev c a)"
          using step na ne \<open>k = a\<close> by simp
        also have "\<dots> = map_option (\<lambda>x. x\<lparr>inputs := [ActionIO (pred_io prev (a # as) a)],
                          outputs := succ_out (idx + length (a # as) = n) (a # as) a\<rparr>) (c a)"
          unfolding so pi using pa nfin by (cases "c a") (simp_all add: link_apply)
        finally show ?thesis using \<open>k = a\<close> by simp
      qed
    next
      case ka: False
      with False show ?thesis by (cases "c k") (auto simp: step link_apply)
    qed
  qed
qed

lemma accepted_cases:
  assumes "accepted c t"
  obtains val ob m a action x y where
    "t = Expr val" "call_parts val = Some (ob, m, a)" "c a = Some action"
    "split_on CHR ''/'' (type_action action) = [x, y]" "convert_cc x = ob" "y = m"
proof (cases t)
  case (Expr val)
  show ?thesis
  proof (cases "call_parts val")
    case None
    with assms Expr show ?thesis by simp
  next
    case (Some r)
    obtain ob m a where r: "r = (ob, m, a)" by (cases r)
    note cp = Some [unfolded r]
    from assms Expr cp obtain action where ca: "c a = Some action" by (cases "c a") auto
    from assms Expr cp ca obtain x y where sp: "split_on CHR ''/'' (type_action action) = [x, y]"
      by (auto split: list.splits)
    from assms Expr cp ca sp have "convert_cc x = ob" "y = m" by auto
    with that Expr cp ca sp show ?thesis by blast
  qed
qed (use assms in simp_all)

lemma walk_accepted:
  assumes "\<forall>t\<in>set ss. accepted c t" and "distinct (loop_ids ss)"
    and "set (loop_ids ss) \<inter> found = {}" and "keyed_by_id c"
    and "idx = 0 \<or> (\<exists>l. lst = Some l \<and> id_action l \<in> found \<and> c (id_action l) \<noteq> None)"
  shows "fst (logic_from_loop n idx ss c found lst) = None"
  using assms
proof (induction ss arbitrary: idx c found lst)
  case Nil
  then show ?case by simp
next
  case (Cons t ss)
  from Cons.prems(1) have "accepted c t" by simp
  then obtain val ob m a action x y where
    t: "t = Expr val" and cp: "call_parts val = Some (ob, m, a)" and ca: "c a = Some action"
    and sp: "split_on CHR ''/'' (type_action action) = [x, y]" and chk: "convert_cc x = ob" "y = m"
    by (rule accepted_cases)
  have sid: "stmt_action_id t = Some a" using t cp by simp
  have ids: "loop_ids (t # ss) = a # loop_ids ss" by (rule loop_ids_Cons [OF sid])
  have nf: "a \<notin> found" using Cons.prems(3) ids by auto
  have ida: "id_action action = a" using Cons.prems(4) ca by (simp add: keyed_by_id_def)
  obtain prev where la: "link_action n idx a action lst c = (None, link n idx a prev c)"
  proof (cases "idx = 0")
    case True
    with that link_action_first_link [of c a action n lst] ca show ?thesis by simp
  next
    case False
    with Cons.prems(5) obtain l where l: "lst = Some l" "id_action l \<in> found" "c (id_action l) \<noteq> None"
      by auto
    with nf have "id_action l \<noteq> a" by auto
    with that link_action_next_link [of c a action l idx n] ca l ida False show ?thesis by simp
  qed
  let ?c1 = "link n idx a prev c"
  have step: "logic_from_loop n idx (t # ss) c found lst =
       logic_from_loop n (Suc idx) ss ?c1 (insert a found) (Some action)"
    using t cp nf ca sp chk la by simp
  have a1: "\<forall>u\<in>set ss. accepted ?c1 u"
  proof
    fix u assume "u \<in> set ss"
    with Cons.prems(1) have "accepted c u" by simp
    moreover have "accepted ?c1 u = accepted c u"
      by (rule accepted_fields) (simp add: link_fields)
    ultimately show "accepted ?c1 u" by simp
  qed
  have a2: "distinct (loop_ids ss)" using Cons.prems(2) ids by simp
  have a3: "set (loop_ids ss) \<inter> insert a found = {}" using Cons.prems(2,3) ids by auto
  have a4: "keyed_by_id ?c1" by (rule keyed_link [OF Cons.prems(4)])
  have "map_option id_action (?c1 a) = map_option id_action (c a)" by (simp add: link_fields)
  with ca have "?c1 a \<noteq> None" by auto
  with ida have a5: "Suc idx = 0 \<or> (\<exists>l. Some action = Some l \<and> id_action l \<in> insert a found
                        \<and> ?c1 (id_action l) \<noteq> None)" by simp
  from Cons.IH [OF a1 a2 a3 a4 a5] step show ?case by simp
qed

lemma walk_duplicate:
  assumes "fst (logic_from_loop n idx pre c found lst) = None"
    and "stmt_action_id s = Some a" and "a \<in> found \<union> set (loop_ids pre)"
  shows "logic_from_loop n idx (pre @ s # post) c found lst =
           (Some (GenerateSourceException (''Duplicate action: '' @ a @ ''.'')),
            snd (logic_from_loop n idx pre c found lst))"
  using assms
proof (induction pre arbitrary: idx c found lst)
  case Nil
  from Nil(2) obtain val where s: "s = Expr val" by (cases s) auto
  with Nil(2) obtain ob m where "call_parts val = Some (ob, m, a)" by auto
  with Nil(3) s show ?case by (simp add: loop_ids_def map_filter_simps)
next
  case (Cons t pre)
  from walk_step_success [OF Cons.prems(1)]
  obtain val ob m b action x y c1 where
    t: "t = Expr val" and cp: "call_parts val = Some (ob, m, b)" and nf: "b \<notin> found"
    and ca: "c b = Some action"
    and sp: "split_on CHR ''/'' (type_action action) = [x, y]" and chk: "convert_cc x = ob" "y = m"
    and la: "link_action n idx b action lst c = (None, c1)"
    and step: "logic_from_loop n idx (t # pre) c found lst =
       logic_from_loop n (Suc idx) pre c1 (insert b found) (Some action)"
    by blast
  have step': "logic_from_loop n idx ((t # pre) @ s # post) c found lst =
       logic_from_loop n (Suc idx) (pre @ s # post) c1 (insert b found) (Some action)"
    using t cp nf ca sp chk la by simp
  have sid: "stmt_action_id t = Some b" using t cp by simp
  have s1: "fst (logic_from_loop n (Suc idx) pre c1 (insert b found) (Some action)) = None"
    using Cons.prems(1) step by simp
  have mem: "a \<in> insert b found \<union> set (loop_ids pre)"
    using Cons.prems(3) by (auto simp: loop_ids_Cons [OF sid])
  from Cons.IH [OF s1 Cons.prems(2) mem] show ?case by (simp only: step step')
qed

section \<open>Recovery of a program text\<close>

lemma keyed_cache_scan:
  "keyed_by_id c \<Longrightarrow> keyed_by_id (fst (cache_scan acts (c, f, l)))"
proof (induction acts arbitrary: c f l)
  case Nil
  then show ?case by simp
next
  case (Cons act acts)
  have "keyed_by_id (c(id_action act \<mapsto> act))"
    using Cons.prems by (simp add: keyed_by_id_def)
  then have "keyed_by_id (fst (cache_scan acts (c(id_action act \<mapsto> act), f', l')))" for f' l'
    by (rule Cons.IH)
  then show ?case by simp
qed

lemma keyed_get_actions_cache: "keyed_by_id (fst (get_actions_cache project))"
  unfolding get_actions_cache_def by (rule keyed_cache_scan) (simp add: keyed_by_id_def)

lemma get_logic_main_loop:
  assumes "main_loop source_code = Some loop"
  shows "get_logic_from_source source_code project =
           logic_from_loop (length loop) 0 loop (fst (get_actions_cache project)) {} None"
proof -
  obtain c f l where g: "get_actions_cache project = (c, f, l)"
    by (cases "get_actions_cache project")
  from assms obtain p where "main_loop_body source_code = Inr p" "get_at source_code p = Some loop"
    by (cases "main_loop_body source_code") (simp_all add: main_loop_def)
  then show ?thesis by (simp add: get_logic_from_source_def g)
qed

lemma main_loop_ex_script: "main_loop (ex_script loop) = Some loop"
  by (simp add: main_loop_def main_loop_body_def find_function_def ex_script_def)

text \<open>
  C7, as amended: when every statement before the repeated one is accepted by the walk
  (a call of the expected shape, of a known action, on the object and method that the
  action records) and no two of them refer to the same action, the recovery raises the
  duplicate-action error at the repeated statement. The cache is then the cache of the
  walk of the statements before it: each of their actions has its input rebuilt and
  its output set to the next of them (none for the last one), and no other action has
  changed.
\<close>

theorem duplicate_action:
  assumes "main_loop source_code = Some (pre @ s # post)"
    and "\<forall>t\<in>set pre. accepted (fst (get_actions_cache project)) t"
    and "distinct (loop_ids pre)"
    and "stmt_action_id s = Some a" and "a \<in> set (loop_ids pre)"
  shows "get_logic_from_source source_code project =
           (Some (GenerateSourceException (''Duplicate action: '' @ a @ ''.'')),
            snd (logic_from_loop (length (pre @ s # post)) 0 pre
                   (fst (get_actions_cache project)) {} None)) \<and>
         fst (logic_from_loop (length (pre @ s # post)) 0 pre
                (fst (get_actions_cache project)) {} None) = None \<and>
         (\<forall>k. snd (get_logic_from_source source_code project) k =
                (if k \<in> set (loop_ids pre)
                 then map_option
                        (\<lambda>x. x\<lparr>inputs := [ActionIO (pred_io None (loop_ids pre) k)],
                                outputs := succ_out False (loop_ids pre) k\<rparr>)
                        (fst (get_actions_cache project) k)
                 else fst (get_actions_cache project) k))"
proof -
  let ?c = "fst (get_actions_cache project)"
  let ?n = "length (pre @ s # post)"
  have k: "keyed_by_id ?c" by (rule keyed_get_actions_cache)
  have ok: "fst (logic_from_loop ?n 0 pre ?c {} None) = None"
    by (rule walk_accepted [OF assms(2,3) _ k]) simp_all
  have dup: "logic_from_loop ?n 0 (pre @ s # post) ?c {} None =
           (Some (GenerateSourceException (''Duplicate action: '' @ a @ ''.'')),
            snd (logic_from_loop ?n 0 pre ?c {} None))"
    by (rule walk_duplicate [OF ok assms(4)]) (simp add: assms(5))
  have res: "get_logic_from_source source_code project =
           (Some (GenerateSourceException (''Duplicate action: '' @ a @ ''.'')),
            snd (logic_from_loop ?n 0 pre ?c {} None))"
    by (simp only: get_logic_main_loop [OF assms(1)] dup)
  have rl: "snd (logic_from_loop ?n 0 pre ?c {} None) = relink ?n 0 (loop_ids pre) None ?c"
    using walk_relink [OF ok k, of None] by simp
  have lt: "(0 + length (loop_ids pre) = ?n) = False"
  proof -
    have "length (loop_ids pre) \<le> length pre"
      by (simp add: loop_ids_def map_filter_def)
    then show ?thesis by simp
  qed
  have le: "0 + length (loop_ids pre) \<le> ?n"
  proof -
    have "length (loop_ids pre) \<le> length pre"
      by (simp add: loop_ids_def map_filter_def)
    then show ?thesis by simp
  qed
  have cl: "relink ?n 0 (loop_ids pre) None ?c k =
     (if k \<in> set (loop_ids pre)
      then map_option
             (\<lambda>x. x\<lparr>inputs := [ActionIO (pred_io None (loop_ids pre) k)],
                     outputs := succ_out False (loop_ids pre) k\<rparr>) (?c k)
      else ?c k)" for k
    using relink_closed [OF assms(3) _ le, of None ?c k] by (simp only: lt) simp
  show ?thesis using res ok rl cl by simp
qed

text \<open>
  Witness for C7: the loop body \<^verbatim>\<open>a1, a2, a1\<close> on the chain of two actions.
\<close>

theorem duplicate_action_witness:
  "fst (get_logic_from_source (ex_script [ex_call ''a1'', ex_call ''a2'', ex_call ''a1'']) ex_chain) =
     Some (GenerateSourceException ''Duplicate action: a1.'') \<and>
   map_option inputs
     (snd (get_logic_from_source (ex_script [ex_call ''a1'', ex_call ''a2'', ex_call ''a1'']) ex_chain)
        ''a2'') = Some [ActionIO (Inr ''a1'')] \<and>
   map_option outputs
     (snd (get_logic_from_source (ex_script [ex_call ''a1'', ex_call ''a2'', ex_call ''a1'']) ex_chain)
        ''a2'') = Some []"
proof -
  let ?pre = "[ex_call ''a1'', ex_call ''a2'']"
  have h1: "main_loop (ex_script [ex_call ''a1'', ex_call ''a2'', ex_call ''a1''])
              = Some (?pre @ ex_call ''a1'' # [])"
    by (simp add: main_loop_ex_script)
  have "accepted (fst (get_actions_cache ex_chain)) (ex_call ''a1'')"
    and "accepted (fst (get_actions_cache ex_chain)) (ex_call ''a2'')"
    by code_simp+
  then have h2: "\<forall>t\<in>set ?pre. accepted (fst (get_actions_cache ex_chain)) t" by simp
  have ids: "loop_ids ?pre = [''a1'', ''a2'']" by code_simp
  have h3: "distinct (loop_ids ?pre)" by (simp add: ids)
  have h4: "stmt_action_id (ex_call ''a1'') = Some ''a1''" by code_simp
  have h5: "''a1'' \<in> set (loop_ids ?pre)" by (simp add: ids)
  have c2: "fst (get_actions_cache ex_chain) ''a2'' =
              Some (ex_action ''a2'' ''robot/move_to'' (Inr ''a1'') (Inl LAST))"
    by (simp add: ex_chain_def ex_project_def get_actions_cache_def ex_action_def)
  note d = duplicate_action [OF h1 h2 h3 h4 h5]
  from d have r1: "fst (get_logic_from_source
                          (ex_script [ex_call ''a1'', ex_call ''a2'', ex_call ''a1'']) ex_chain) =
                     Some (GenerateSourceException ''Duplicate action: a1.'')"
    by simp
  from d have "snd (get_logic_from_source
                      (ex_script [ex_call ''a1'', ex_call ''a2'', ex_call ''a1'']) ex_chain) ''a2'' =
       (if ''a2'' \<in> set (loop_ids ?pre)
        then map_option
               (\<lambda>x. x\<lparr>inputs := [ActionIO (pred_io None (loop_ids ?pre) ''a2'')],
                       outputs := succ_out False (loop_ids ?pre) ''a2''\<rparr>)
               (fst (get_actions_cache ex_chain) ''a2'')
        else fst (get_actions_cache ex_chain) ''a2'')"
    by blast
  then have r2: "snd (get_logic_from_source
                      (ex_script [ex_call ''a1'', ex_call ''a2'', ex_call ''a1'']) ex_chain) ''a2'' =
       Some ((ex_action ''a2'' ''robot/move_to'' (Inr ''a1'') (Inl LAST))
               \<lparr>inputs := [ActionIO (Inr ''a1'')], outputs := []\<rparr>)"
    by (simp add: ids c2)
  show ?thesis by (simp add: r1 r2)
qed

text \<open>
  Counterexample to C7 as stated: the loop body refers to \<^verbatim>\<open>a1\<close> twice, and the
  recovery raises the unknown-action error of the first statement instead.
\<close>

theorem unknown_before_duplicate:
  "fst (get_logic_from_source (ex_script [ex_call ''zzz'', ex_call ''a1'', ex_call ''a1'']) ex_chain) =
     Some (GenerateSourceException ''Unknown action zzz.'')"
  by code_simp

section \<open>Links after a recovery without error\<close>

lemma pred_io_first:
  "k \<in> set as \<Longrightarrow> (pred_io prev as k = Inl FIRST \<longleftrightarrow> prev = None \<and> k = hd as)"
proof (induction as arbitrary: prev)
  case Nil
  then show ?case by simp
next
  case (Cons b bs)
  show ?case
  proof (cases "k = b")
    case True
    then show ?thesis by (cases prev) simp_all
  next
    case False
    with Cons.prems have "k \<in> set bs" by simp
    from Cons.IH [OF this, of "Some b"] False show ?thesis by simp
  qed
qed

lemma succ_out_last:
  "k \<in> set as \<Longrightarrow> distinct as \<Longrightarrow>
   (succ_out True as k = [ActionIO (Inl LAST)] \<longleftrightarrow> k = last as)"
proof (induction True as k rule: succ_out.induct)
  case (1 a)
  then show ?case by simp
next
  case (2 b a)
  then show ?case by simp
next
  case (3 b b' bs a)
  show ?case
  proof (cases "a = b")
    case True
    have "last (b' # bs) \<in> set (b' # bs)" by (rule last_in_set) simp
    with 3(3) True have "a \<noteq> last (b' # bs)" by auto
    with True show ?thesis by simp
  next
    case False
    with 3 show ?thesis by simp
  qed
qed

lemma accepted_known:
  assumes "accepted c t" and "stmt_action_id t = Some a"
  shows "c a \<noteq> None"
  using assms(1)
proof (rule accepted_cases)
  fix val ob m b action x y
  assume "t = Expr val" "call_parts val = Some (ob, m, b)" "c b = Some action"
  with assms(2) show ?thesis by simp
qed

lemma loop_ids_known:
  assumes "\<forall>t\<in>set ss. accepted c t" and "k \<in> set (loop_ids ss)"
  shows "c k \<noteq> None"
proof -
  from assms(2) obtain t where "t \<in> set ss" "stmt_action_id t = Some k"
    by (auto simp: loop_ids_def map_filter_def)
  with assms(1) accepted_known show ?thesis by blast
qed

lemma succ_out_nonempty: "k \<in> set as \<Longrightarrow> succ_out True as k \<noteq> []"
  by (induction True as k rule: succ_out.induct) auto

lemma succ_out_length: "length (succ_out fin as k) \<le> 1"
  by (induction fin as k rule: succ_out.induct) auto

text \<open>
  C9, as amended: when the recovery returns without error, every statement of the loop
  body refers to an action of its own; among the actions referred to, the one of the first
  statement alone has \<open>FIRST\<close> as its first input and the one of the last statement
  alone has \<open>LAST\<close> as its first output; an action that the loop body omits keeps its
  inputs and outputs.
\<close>

theorem recovered_links:
  assumes "main_loop source_code = Some loop"
    and "fst (get_logic_from_source source_code project) = None"
  shows "map stmt_action_id loop = map Some (loop_ids loop) \<and> distinct (loop_ids loop) \<and>
         (\<forall>k\<in>set (loop_ids loop).
            \<exists>act. snd (get_logic_from_source source_code project) k = Some act \<and>
                  (is_first act \<longleftrightarrow> k = hd (loop_ids loop)) \<and>
                  (is_last act \<longleftrightarrow> k = last (loop_ids loop))) \<and>
         (\<forall>k. k \<notin> set (loop_ids loop) \<longrightarrow>
              snd (get_logic_from_source source_code project) k = fst (get_actions_cache project) k)"
proof -
  let ?c = "fst (get_actions_cache project)"
  let ?n = "length loop"
  let ?ids = "loop_ids loop"
  have k: "keyed_by_id ?c" by (rule keyed_get_actions_cache)
  have eq: "get_logic_from_source source_code project = logic_from_loop ?n 0 loop ?c {} None"
    by (rule get_logic_main_loop [OF assms(1)])
  have ok: "fst (logic_from_loop ?n 0 loop ?c {} None) = None" using assms(2) eq by simp
  note w = walk_relink [OF ok k, of None]
  from w have rl: "snd (logic_from_loop ?n 0 loop ?c {} None) = relink ?n 0 ?ids None ?c"
    and ids: "map stmt_action_id loop = map Some ?ids" and d: "distinct ?ids"
    and acc: "\<forall>t\<in>set loop. accepted ?c t"
    by simp_all
  have len: "length ?ids = ?n"
    using arg_cong [OF ids, of length] by simp
  have cl: "relink ?n 0 ?ids None ?c k =
     (if k \<in> set ?ids
      then map_option (\<lambda>x. x\<lparr>inputs := [ActionIO (pred_io None ?ids k)],
                              outputs := succ_out True ?ids k\<rparr>) (?c k)
      else ?c k)" for k
    using relink_closed [OF d, of None 0 ?n ?c k] len by simp
  have in_ids: "\<exists>act. snd (get_logic_from_source source_code project) k = Some act \<and>
                  (is_first act \<longleftrightarrow> k = hd ?ids) \<and> (is_last act \<longleftrightarrow> k = last ?ids)"
    if kin: "k \<in> set ?ids" for k
  proof -
    from loop_ids_known [OF acc kin] obtain x where x: "?c k = Some x" by auto
    let ?act = "x\<lparr>inputs := [ActionIO (pred_io None ?ids k)], outputs := succ_out True ?ids k\<rparr>"
    have r: "snd (get_logic_from_source source_code project) k = Some ?act"
      using kin x by (simp add: eq rl cl)
    have f: "is_first ?act \<longleftrightarrow> k = hd ?ids"
      using pred_io_first [OF kin, of None] by (simp add: is_first_def)
    have ne: "succ_out True ?ids k \<noteq> []"
      by (rule succ_out_nonempty [OF kin])
    have "is_last ?act \<longleftrightarrow> succ_out True ?ids k = [ActionIO (Inl LAST)]"
    proof (cases "succ_out True ?ids k")
      case Nil
      with ne show ?thesis by simp
    next
      case (Cons io ios)
      have "length (succ_out True ?ids k) \<le> 1"
        by (rule succ_out_length)
      with Cons have "ios = []" by simp
      with Cons show ?thesis by (cases io) (simp add: is_last_def)
    qed
    with succ_out_last [OF kin d] have l: "is_last ?act \<longleftrightarrow> k = last ?ids" by simp
    from r f l show ?thesis by blast
  qed
  have out_ids: "snd (get_logic_from_source source_code project) k = ?c k"
    if "k \<notin> set ?ids" for k
    using that by (simp add: eq rl cl)
  from ids d in_ids out_ids show ?thesis by blast
qed

text \<open>Witness for C9: the loop body \<^verbatim>\<open>a1, a2\<close> on the chain of two actions.\<close>

theorem recovered_links_witness:
  "fst (get_logic_from_source (ex_script [ex_call ''a1'', ex_call ''a2'']) ex_chain) = None \<and>
   (\<exists>act. snd (get_logic_from_source (ex_script [ex_call ''a1'', ex_call ''a2'']) ex_chain) ''a1''
             = Some act \<and> is_first act \<and> \<not> is_last act) \<and>
   (\<exists>act. snd (get_logic_from_source (ex_script [ex_call ''a1'', ex_call ''a2'']) ex_chain) ''a2''
             = Some act \<and> \<not> is_first act \<and> is_last act)"
proof -
  let ?s = "ex_script [ex_call ''a1'', ex_call ''a2'']"
  have h1: "main_loop ?s = Some [ex_call ''a1'', ex_call ''a2'']" by (rule main_loop_ex_script)
  have h2: "fst (get_logic_from_source ?s ex_chain) = None" by code_simp
  have ids: "loop_ids [ex_call ''a1'', ex_call ''a2''] = [''a1'', ''a2'']" by code_simp
  note r = recovered_links [OF h1 h2, unfolded ids]
  from r have "\<forall>k\<in>set [''a1'', ''a2''].
            \<exists>act. snd (get_logic_from_source ?s ex_chain) k = Some act \<and>
                  (is_first act \<longleftrightarrow> k = hd [''a1'', ''a2'']) \<and>
                  (is_last act \<longleftrightarrow> k = last [''a1'', ''a2''])"
    by blast
  then show ?thesis using h2 by simp
qed

text \<open>
  Counterexample to C9 as stated: the loop body omits \<^verbatim>\<open>a1\<close>; the recovery returns
  without error, \<^verbatim>\<open>a2\<close> becomes a first action and \<^verbatim>\<open>a1\<close> stays one.
\<close>

theorem omitted_action_keeps_first:
  "fst (get_logic_from_source (ex_script [ex_call ''a2'']) ex_chain) = None \<and>
   map_option is_first (snd (get_logic_from_source (ex_script [ex_call ''a2'']) ex_chain) ''a1'')
     = Some True \<and>
   map_option is_first (snd (get_logic_from_source (ex_script [ex_call ''a2'']) ex_chain) ''a2'')
     = Some True"
  by code_simp

section \<open>The tree that the emitter builds\<close>

lemma add_import_stmts_append:
  "add_import_stmts m c (xs @ ys) d =
     (case add_import_stmts m c xs d of
        (xs', d1) \<Rightarrow> (case add_import_stmts m c ys d1 of (ys', d2) \<Rightarrow> (xs' @ ys', d2)))"
  by (induction xs arbitrary: d) (auto split: prod.splits)

lemma add_import_stmts_assigns:
  "\<forall>s\<in>set ss. is_assign s \<Longrightarrow> add_import_stmts m c ss d = (ss, d)"
proof (induction ss arbitrary: d)
  case Nil
  then show ?case by simp
next
  case (Cons s ss)
  then have "is_assign s" by simp
  then have "add_import_stmt m c s d = (s, d)" by (cases s) simp_all
  with Cons show ?case by simp
qed

lemma add_import_stmts_imports:
  "\<forall>s\<in>set ss. is_import s \<Longrightarrow>
   \<exists>ss'. fst (add_import_stmts m c ss d) = ss' \<and> (\<forall>s\<in>set ss'. is_import s)"
proof (induction ss arbitrary: d)
  case Nil
  then show ?case by simp
next
  case (Cons s ss)
  then have "is_import s" by simp
  then obtain md ns l where s: "s = ImportFrom md ns l" by (cases s) simp_all
  obtain s' d1 where a: "add_import_stmt m c s d = (s', d1)" by (cases "add_import_stmt m c s d")
  with s have s': "is_import s'" by (auto split: if_splits)
  from Cons obtain ss' where "fst (add_import_stmts m c ss d1) = ss'" "\<forall>s\<in>set ss'. is_import s"
    by auto
  with a s' show ?case by (auto split: prod.splits)
qed

lemma add_import_script:
  assumes "\<forall>s\<in>set imps. is_import s" and "\<forall>s\<in>set asgs. is_assign s"
  shows "\<exists>imps'. (\<forall>s\<in>set imps'. is_import s) \<and>
           add_import (script imps asgs [Pass]) m c = script imps' asgs [Pass]"
proof -
  obtain imps' d1 where a: "add_import_stmts m c imps False = (imps', d1)"
    by (cases "add_import_stmts m c imps False")
  with add_import_stmts_imports [OF assms(1), of m c False]
  have i': "\<forall>s\<in>set imps'. is_import s" by simp
  have b: "add_import_stmts m c (asgs @ [While (NameConstant PyTrue) [Pass] []]) d =
             (asgs @ [While (NameConstant PyTrue) [Pass] []], d)" for d
    by (simp add: add_import_stmts_append add_import_stmts_assigns [OF assms(2)])
  have r: "add_import_stmts m c (script imps asgs [Pass]) False = (script imps' asgs [Pass], d1)"
    unfolding script_def
    by (simp add: add_import_stmts_append a add_import_stmts_assigns [OF assms(2)])
  show ?thesis
  proof (cases d1)
    case True
    with r i' show ?thesis by (auto simp: add_import_def)
  next
    case False
    have e: "add_import (script imps asgs [Pass]) m c =
            script (ImportFrom (Some m) [import_alias c None] 0 # imps') asgs [Pass]"
      using r False by (simp add: add_import_def script_def)
    have i: "\<forall>s\<in>set (ImportFrom (Some m) [import_alias c None] 0 # imps'). is_import s"
      using i' by simp
    from i e show ?thesis by blast
  qed
qed

lemma find_function_stmts_imports:
  "\<forall>s\<in>set imps. is_import s \<Longrightarrow>
   find_function_stmts name p i (imps @ rest) f = find_function_stmts name p (i + length imps) rest f"
proof (induction imps arbitrary: i)
  case Nil
  then show ?case by simp
next
  case (Cons s imps)
  then have "is_import s" by simp
  then have "find_function_stmt name p i s f = f" by (cases s) simp_all
  with Cons show ?case by simp
qed

lemma find_function_script:
  assumes "\<forall>s\<in>set imps. is_import s"
  shows "find_function ''main'' (script imps asgs loop) = Inr [(length imps, Body)]"
  unfolding find_function_def script_def
  by (simp add: find_function_stmts_imports [OF assms])

lemma get_at_script:
  "get_at (script imps asgs loop) [(length imps, Body)]
     = Some (asgs @ [While (NameConstant PyTrue) loop []])"
  by (simp add: script_def)

lemma find_index_append:
  "\<forall>x\<in>set xs. \<not> P x \<Longrightarrow> P y \<Longrightarrow> find_index P (xs @ y # ys) = Some (length xs)"
  by (induction xs) simp_all

lemma main_loop_body_script:
  assumes "\<forall>s\<in>set imps. is_import s" and "\<forall>s\<in>set asgs. is_assign s"
  shows "main_loop_body (script imps asgs loop) = Inr [(length imps, Body), (length asgs, Body)]"
proof -
  have "\<forall>s\<in>set asgs. \<not> is_While s"
  proof
    fix s assume "s \<in> set asgs"
    with assms(2) have "is_assign s" by simp
    then show "\<not> is_While s" by (cases s) simp_all
  qed
  then have "find_index is_While (asgs @ [While (NameConstant PyTrue) loop []]) = Some (length asgs)"
    by (rule find_index_append) simp
  then show ?thesis
    by (simp add: main_loop_body_def find_function_script [OF assms(1)] get_at_script
          del: get_at.simps)
qed

lemma get_at_loop_script:
  "get_at (script imps asgs loop) [(length imps, Body), (length asgs, Body)] = Some loop"
  by (simp add: script_def nth_append)

lemma main_loop_script:
  assumes "\<forall>s\<in>set imps. is_import s" and "\<forall>s\<in>set asgs. is_assign s"
  shows "main_loop (script imps asgs loop) = Some loop"
  by (simp add: main_loop_def main_loop_body_script [OF assms] get_at_loop_script
        del: get_at.simps)

lemma update_at_loop_script:
  "update_at g [(length imps, Body), (length asgs, Body)] (script imps asgs loop)
     = script imps asgs (g loop)"
  by (simp add: script_def nth_append)

lemma update_at_main_script:
  "update_at g [(length imps, Body)] (script imps asgs loop) =
     imps @
     [FunctionDef ''main'' (arguments [] None [] None)
        (g (asgs @ [While (NameConstant PyTrue) loop []])) [] (Some (NameConstant PyNone)),
      If_stmt (Compare (Name ''__name__'' Load) [Str ''__main__''])
        [Expr (Call (Name ''main'' Load) [] [])] []]"
  by (simp add: script_def nth_append)

lemma last_index_loop_append:
  "xs \<noteq> [] \<Longrightarrow> \<forall>x\<in>set xs. P x \<Longrightarrow> \<not> P y \<Longrightarrow>
   last_index_loop P i (xs @ [y]) r = Some (i + length xs - 1)"
proof (induction xs arbitrary: i r)
  case Nil
  then show ?case by simp
next
  case (Cons x xs)
  show ?case
  proof (cases "xs = []")
    case True
    with Cons.prems show ?thesis by simp
  next
    case False
    with Cons.prems have "last_index_loop P (Suc i) (xs @ [y]) (Some i) = Some (Suc i + length xs - 1)"
      by (intro Cons.IH) simp_all
    with Cons.prems show ?thesis by simp
  qed
qed

lemma object_instance_script:
  assumes "\<forall>s\<in>set imps. is_import s" and "\<forall>s\<in>set asgs. is_assign s" and "asgs \<noteq> []"
  shows "object_instance_from_res (script imps asgs loop) object_id cls_name =
           Inr (script imps
                  (asgs @ [AnnAssign (Name (fix_object_name object_id) Store) (Name cls_name Load)
                             (Some (Subscript (Attribute (Name ''res'' Load) ''objects'' Load)
                                      (Str object_id) Load))])
                  loop)"
proof -
  have w: "\<not> is_assign (While (NameConstant PyTrue) loop [])" by simp
  have li: "last_index_loop is_assign 0 (asgs @ [While (NameConstant PyTrue) loop []]) None
              = Some (length asgs - 1)"
    using last_index_loop_append [OF assms(3,2) w, of 0 None] by simp
  have len: "Suc (length asgs - Suc 0) = length asgs" using assms(3) by (cases asgs) simp_all
  have ins: "list_insert (length asgs) x (asgs @ [While (NameConstant PyTrue) loop []]) =
               (asgs @ [x]) @ [While (NameConstant PyTrue) loop []]" for x
    by (simp add: list_insert_def)
  have "object_instance_from_res (script imps asgs loop) object_id cls_name =
          Inr (update_at
                 (list_insert (length asgs)
                    (AnnAssign (Name (fix_object_name object_id) Store) (Name cls_name Load)
                       (Some (Subscript (Attribute (Name ''res'' Load) ''objects'' Load)
                                (Str object_id) Load))))
                 [(length imps, Body)] (script imps asgs loop))"
    by (simp add: object_instance_from_res_def find_function_script [OF assms(1)] get_at_script li
          len del: get_at.simps update_at.simps)
  then show ?thesis
    by (simp only: update_at_main_script ins) (simp add: script_def)
qed

lemma initial_script:
  "add_cls_inst (add_import empty_script_tree ''resources'' ''Resources'') ''Resources'' ''res'' =
     Inr (script [ImportFrom (Some ''resources'') [import_alias ''Resources'' None] 0]
            [Assign [Name ''res'' Store] (Call (Name ''Resources'' Load) [] [])] [Pass])"
  by (simp add: add_cls_inst_def add_import_def empty_script_tree_def script_def)

lemma scene_objects_loop_script:
  assumes "\<forall>s\<in>set imps. is_import s" and "\<forall>s\<in>set asgs. is_assign s" and "asgs \<noteq> []"
  shows "\<exists>imps' asgs'. (\<forall>s\<in>set imps'. is_import s) \<and> (\<forall>s\<in>set asgs'. is_assign s) \<and>
           scene_objects_loop objs built_in_objects (script imps asgs [Pass]) =
             Inr (script imps' asgs' [Pass])"
  using assms
proof (induction objs arbitrary: imps asgs)
  case Nil
  then show ?case by auto
next
  case (Cons obj objs)
  let ?m = "if type_object obj \<in> built_in_objects then ''arcor2.object_types''
            else ''object_types.'' @ convert_cc (type_object obj)"
  from add_import_script [OF Cons.prems(1,2), of ?m "type_object obj"]
  obtain imps1 where i1: "\<forall>s\<in>set imps1. is_import s"
    and a1: "add_import (script imps asgs [Pass]) ?m (type_object obj) = script imps1 asgs [Pass]"
    by blast
  let ?asgs1 = "asgs @ [AnnAssign (Name (fix_object_name (id_object obj)) Store)
                          (Name (type_object obj) Load)
                          (Some (Subscript (Attribute (Name ''res'' Load) ''objects'' Load)
                                   (Str (id_object obj)) Load))]"
  have o1: "object_instance_from_res (script imps1 asgs [Pass]) (id_object obj) (type_object obj) =
              Inr (script imps1 ?asgs1 [Pass])"
    by (rule object_instance_script [OF i1 Cons.prems(2,3)])
  have as1: "\<forall>s\<in>set ?asgs1. is_assign s" using Cons.prems(2) by simp
  have ne1: "?asgs1 \<noteq> []" by simp
  from Cons.IH [OF i1 as1 ne1]
  obtain imps' asgs' where "\<forall>s\<in>set imps'. is_import s" "\<forall>s\<in>set asgs'. is_assign s"
    "scene_objects_loop objs built_in_objects (script imps1 ?asgs1 [Pass]) = Inr (script imps' asgs' [Pass])"
    by blast
  moreover have "scene_objects_loop (obj # objs) built_in_objects (script imps asgs [Pass]) =
      scene_objects_loop objs built_in_objects (script imps1 ?asgs1 [Pass])"
    using a1 o1 by (cases "type_object obj \<in> built_in_objects") simp_all
  ultimately show ?case by auto
qed

lemma scene_tree_script:
  "\<exists>imps asgs. (\<forall>s\<in>set imps. is_import s) \<and> (\<forall>s\<in>set asgs. is_assign s) \<and>
      scene_tree scene built_in_objects = Inr (script imps asgs [Pass])"
proof -
  have "\<exists>imps' asgs'. (\<forall>s\<in>set imps'. is_import s) \<and> (\<forall>s\<in>set asgs'. is_assign s) \<and>
           scene_objects_loop (objects scene) built_in_objects
             (script [ImportFrom (Some ''resources'') [import_alias ''Resources'' None] 0]
                [Assign [Name ''res'' Store] (Call (Name ''Resources'' Load) [] [])] [Pass]) =
             Inr (script imps' asgs' [Pass])"
    by (rule scene_objects_loop_script) simp_all
  then show ?thesis by (simp add: scene_tree_def initial_script)
qed

lemma program_src_scene_tree:
  "program_src project scene built_in_objects =
     (case scene_tree scene built_in_objects of
        Inl e \<Rightarrow> Some (Inl e)
      | Inr tree \<Rightarrow> add_logic_to_loop tree project)"
  by (simp add: program_src_def scene_tree_def split: sum.splits)

lemma add_logic_script:
  assumes "\<forall>s\<in>set imps. is_import s" and "\<forall>s\<in>set asgs. is_assign s"
  shows "add_logic_to_loop (script imps asgs loop) project =
     (case get_actions_cache project of
        (actions_cache, first_action_id, last_action_id) \<Rightarrow>
          (case first_action_id of
             None \<Rightarrow> Some (Inl (GenerateSourceException (quoted ''start'' @ '' action not found.'')))
           | Some f \<Rightarrow>
               (case last_action_id of
                  None \<Rightarrow> Some (Inl (GenerateSourceException (quoted ''end'' @ '' action not found.'')))
                | Some l \<Rightarrow>
                    (case logic_loop actions_cache l (Inr f) loop of
                       None \<Rightarrow> None
                     | Some (Inl e) \<Rightarrow> Some (Inl e)
                     | Some (Inr loop') \<Rightarrow> Some (Inr (script imps asgs loop'))))))"
  by (simp add: add_logic_to_loop_def main_loop_body_script [OF assms] get_at_loop_script
        update_at_loop_script del: get_at.simps update_at.simps
        split: prod.splits option.splits sum.splits)

section \<open>Missing start or end action\<close>







section \<open>The chain that the emitter follows\<close>

text \<open>
  The loop of \<^verbatim>\<open>add_logic_to_loop\<close> on a chain: it returns the statements of the loop
  followed by one call for each action of the chain, the placeholder \<^verbatim>\<open>pass\<close> removed.
\<close>

lemma not_Pass_snoc: "xs @ [method_call i m as kws] \<noteq> [Pass]"
  by (cases xs) (simp_all add: method_call_def)

lemma chain_emit:
  assumes "chain c l ids" and "calls_of c ids = Some calls"
  shows "logic_loop c l (Inr (hd ids)) loop = Some (Inr ((if loop = [Pass] then [] else loop) @ calls))"
  using assms
proof (induction c l ids arbitrary: loop calls rule: chain.induct)
  case (1 c l)
  then show ?case by simp
next
  case (2 c l a)
  from 2(1) obtain act where act: "c a = Some act" "id_action act = l"
    by (cases "c a") auto
  from 2(2) act obtain s where s: "action_call act = Some s" "calls = [s]"
    by (cases "action_call act") auto
  from s(1) obtain ob m where sp: "split_on CHR ''/'' (type_action act) = [ob, m]"
    and sv: "s = method_call (fix_object_name ob) m []
                   [(None, Attribute (Name ''res'' Load) (id_action act) Load)]"
    by (auto simp: action_call_def split: list.splits)
  show ?case
    by (subst logic_loop.simps) (simp add: act sp sv s append_method_call_def)
next
  case (3 c l a b as)
  from 3(2) obtain act io ios where act: "c a = Some act" "id_action act \<noteq> l"
    "outputs act = io # ios" "default_io io = Inr b" and ch: "chain c l (b # as)"
    by (cases "c a") (auto split: list.splits)
  from 3(3) act obtain s calls' where s: "action_call act = Some s"
    and cs: "calls_of c (b # as) = Some calls'" "calls = s # calls'"
    by (cases "action_call act"; cases "calls_of c (b # as)") auto
  from s obtain ob m where sp: "split_on CHR ''/'' (type_action act) = [ob, m]"
    and sv: "s = method_call (fix_object_name ob) m []
                   [(None, Attribute (Name ''res'' Load) (id_action act) Load)]"
    by (auto simp: action_call_def split: list.splits)
  let ?loop' = "(if loop = [Pass] then [] else loop) @ [s]"
  have np: "?loop' \<noteq> [Pass]" unfolding sv by (rule not_Pass_snoc)
  have "logic_loop c l (Inr (hd (a # b # as))) loop = logic_loop c l (Inr b) ?loop'"
    by (subst logic_loop.simps) (simp add: act sp sv append_method_call_def)
  also have "\<dots> = Some (Inr ((if ?loop' = [Pass] then [] else ?loop') @ calls'))"
    using "3.IH" [OF ch cs(1), of ?loop'] by simp
  also have "\<dots> = Some (Inr ((if loop = [Pass] then [] else loop) @ calls))"
    using np cs(2) by simp
  finally show ?case .
qed

text \<open>
  The loop on a set of ids that it cannot leave: no call of \<^verbatim>\<open>logic_loop\<close> that starts
  in the set returns.
\<close>

lemma logic_loop_trapped:
  assumes "trapped c l S" and "a \<in> S"
  shows "logic_loop c l (Inr a) loop = None"
proof (rule ccontr)
  assume "logic_loop c l (Inr a) loop \<noteq> None"
  then obtain y where y: "logic_loop c l (Inr a) loop = Some y" by auto
  have "\<not> (c = c \<and> l = l \<and> (Inr a :: ActionIOEnum + string) \<in> Inr ` S)"
  proof (rule logic_loop.raw_induct
      [where P = "\<lambda>c' l' nx lp y'. \<not> (c' = c \<and> l' = l \<and> nx \<in> Inr ` S)", OF _ y], goal_cases)
    case (1 f c' l' nx lp y')
    show ?case
    proof
      assume e: "c' = c \<and> l' = l \<and> nx \<in> Inr ` S"
      then obtain k where k: "nx = Inr k" "k \<in> S" by auto
      from assms(1) k(2)
      have t: "case c k of
                 None \<Rightarrow> False
               | Some act \<Rightarrow>
                   action_call act \<noteq> None \<and> id_action act \<noteq> l \<and>
                   (case outputs act of
                      [] \<Rightarrow> False
                    | io # ios \<Rightarrow> (case default_io io of Inl s \<Rightarrow> False | Inr b \<Rightarrow> b \<in> S))"
        unfolding trapped_def by blast
      then obtain act where a1: "c k = Some act" by (cases "c k") auto
      from t a1 have a2: "action_call act \<noteq> None" and a3: "id_action act \<noteq> l"
        and a4: "case outputs act of
                      [] \<Rightarrow> False
                    | io # ios \<Rightarrow> (case default_io io of Inl s \<Rightarrow> False | Inr b \<Rightarrow> b \<in> S)"
        by simp_all
      from a2 obtain ob m where a5: "split_on CHR ''/'' (type_action act) = [ob, m]"
        by (auto simp: action_call_def split: list.splits)
      from a4 obtain io ios where a6: "outputs act = io # ios" by (cases "outputs act") auto
      from a4 a6 obtain b where a7: "default_io io = Inr b" "b \<in> S"
        by (cases "default_io io") auto
      note act = a1 a5 a3 a6 a7
      with 1(2) e k
      have "f c l (Inr b)
            (append_method_call (if lp = [Pass] then [] else lp) (fix_object_name ob) m []
               [(None, Attribute (Name ''res'' Load) (id_action act) Load)]) = Some y'"
        by simp
      with 1(1) act(6) show False by blast
    qed
  qed
  with assms(2) show False by simp
qed

text \<open>
  \<^verbatim>\<open>program_src\<close> in terms of the loop: the tree of the scene, with the body of its
  main loop replaced by the result of the loop.
\<close>

lemma program_src_logic_loop:
  assumes "get_actions_cache project = (c, Some f, Some l)"
  shows "\<exists>imps asgs. scene_tree scene built_in_objects = Inr (script imps asgs [Pass]) \<and>
           program_src project scene built_in_objects =
             (case logic_loop c l (Inr f) [Pass] of
                None \<Rightarrow> None
              | Some (Inl e) \<Rightarrow> Some (Inl e)
              | Some (Inr loop') \<Rightarrow> Some (Inr (script imps asgs loop')))"
proof -
  from scene_tree_script [of scene built_in_objects]
  obtain imps asgs where i: "\<forall>s\<in>set imps. is_import s" and a: "\<forall>s\<in>set asgs. is_assign s"
    and t: "scene_tree scene built_in_objects = Inr (script imps asgs [Pass])"
    by blast
  have "program_src project scene built_in_objects =
             (case logic_loop c l (Inr f) [Pass] of
                None \<Rightarrow> None
              | Some (Inl e) \<Rightarrow> Some (Inl e)
              | Some (Inr loop') \<Rightarrow> Some (Inr (script imps asgs loop')))"
    by (simp add: program_src_scene_tree t add_logic_script [OF i a] assms)
  with t show ?thesis by blast
qed

lemma program_src_chain:
  assumes "get_actions_cache project = (c, Some f, Some l)"
    and "chain c l (f # ids)" and "calls_of c (f # ids) = Some calls"
  shows "\<exists>imps asgs. scene_tree scene built_in_objects = Inr (script imps asgs [Pass]) \<and>
           program_src project scene built_in_objects = Some (Inr (script imps asgs calls))"
proof -
  from chain_emit [OF assms(2,3), of "[Pass]"]
  have "logic_loop c l (Inr f) [Pass] = Some (Inr calls)" by simp
  with program_src_logic_loop [OF assms(1), of scene built_in_objects]
  show ?thesis by simp
qed

lemma program_src_trapped:
  assumes "get_actions_cache project = (c, Some f, Some l)"
    and "trapped c l S" and "f \<in> S"
  shows "program_src project scene built_in_objects = None"
proof -
  from logic_loop_trapped [OF assms(2,3)]
  have "logic_loop c l (Inr f) [Pass] = None" .
  with program_src_logic_loop [OF assms(1), of scene built_in_objects]
  show ?thesis by auto
qed

lemma script_ex_script:
  assumes "script imps asgs l0 = ex_script l0"
  shows "script imps asgs l1 = ex_script l1"
  using assms by (auto simp: script_def ex_script_def append_eq_Cons_conv)

lemma scene_tree_robot: "scene_tree (ex_scene ''robot'') {''Robot''} = Inr (ex_script [Pass])"
  by code_simp

text \<open>
  C8, as amended: \<^verbatim>\<open>add_logic_to_loop\<close> is not total. With the start action \<open>f\<close> and
  the end action \<open>l\<close> of the project, when the chain of the first outputs from \<open>f\<close>
  reaches \<open>l\<close>, \<^verbatim>\<open>program_src\<close> returns the tree of the scene with one call for each
  action of the chain as the body of the loop, whatever other actions the project has;
  when \<open>f\<close> lies in a set of ids that the first outputs never leave and that avoids
  \<open>l\<close>, \<^verbatim>\<open>program_src\<close> does not return.
\<close>

theorem emitter_chain_or_cycle:
  assumes "get_actions_cache project = (c, Some f, Some l)"
  shows "(chain c l (f # ids) \<and> calls_of c (f # ids) = Some calls \<longrightarrow>
            (\<exists>imps asgs. scene_tree scene built_in_objects = Inr (script imps asgs [Pass]) \<and>
               program_src project scene built_in_objects = Some (Inr (script imps asgs calls)))) \<and>
         (f \<in> S \<and> trapped c l S \<longrightarrow> program_src project scene built_in_objects = None)"
  using program_src_chain [OF assms] program_src_trapped [OF assms] by blast

text \<open>
  Witness for C8: the chain \<^verbatim>\<open>a1\<close>, \<^verbatim>\<open>a2\<close>, \<^verbatim>\<open>a3\<close> with the action \<^verbatim>\<open>a4\<close>
  outside of it yields the three calls, and the project whose start action \<^verbatim>\<open>a1\<close> has
  itself as its first output yields no result.
\<close>

theorem emitter_chain_or_cycle_witness:
  "program_src
     (ex_project [ex_action ''a1'' ''robot/move_to'' (Inl FIRST) (Inr ''a2''),
                  ex_action ''a2'' ''robot/move_to'' (Inr ''a1'') (Inr ''a3''),
                  ex_action ''a3'' ''robot/move_to'' (Inr ''a2'') (Inl LAST),
                  ex_action ''a4'' ''robot/move_to'' (Inr ''a1'') (Inr ''a2'')])
     (ex_scene ''robot'') {''Robot''} =
     Some (Inr (ex_script [ex_call ''a1'', ex_call ''a2'', ex_call ''a3''])) \<and>
   program_src
     (ex_project [ex_action ''a1'' ''robot/move_to'' (Inl FIRST) (Inr ''a1''),
                  ex_action ''a2'' ''robot/move_to'' (Inr ''a1'') (Inl LAST)])
     (ex_scene ''robot'') {''Robot''} = None"
proof -
  let ?p1 = "ex_project [ex_action ''a1'' ''robot/move_to'' (Inl FIRST) (Inr ''a2''),
                  ex_action ''a2'' ''robot/move_to'' (Inr ''a1'') (Inr ''a3''),
                  ex_action ''a3'' ''robot/move_to'' (Inr ''a2'') (Inl LAST),
                  ex_action ''a4'' ''robot/move_to'' (Inr ''a1'') (Inr ''a2'')]"
  let ?p2 = "ex_project [ex_action ''a1'' ''robot/move_to'' (Inl FIRST) (Inr ''a1''),
                  ex_action ''a2'' ''robot/move_to'' (Inr ''a1'') (Inl LAST)]"
  let ?c1 = "fst (get_actions_cache ?p1)"
  let ?c2 = "fst (get_actions_cache ?p2)"
  let ?calls = "[ex_call ''a1'', ex_call ''a2'', ex_call ''a3'']"
  have "snd (get_actions_cache ?p1) = (Some ''a1'', Some ''a3'')" by code_simp
  then have g1: "get_actions_cache ?p1 = (?c1, Some ''a1'', Some ''a3'')"
    by (simp add: prod_eq_iff)
  have "snd (get_actions_cache ?p2) = (Some ''a1'', Some ''a2'')" by code_simp
  then have g2: "get_actions_cache ?p2 = (?c2, Some ''a1'', Some ''a2'')"
    by (simp add: prod_eq_iff)
  have ch: "chain ?c1 ''a3'' [''a1'', ''a2'', ''a3'']" by code_simp
  have co: "calls_of ?c1 [''a1'', ''a2'', ''a3''] = Some ?calls" by code_simp
  have tr: "trapped ?c2 ''a2'' {''a1''}" by code_simp
  from emitter_chain_or_cycle [OF g1, of "[''a2'', ''a3'']" ?calls
      "ex_scene ''robot''" "{''Robot''}"] ch co
  obtain imps asgs where s: "scene_tree (ex_scene ''robot'') {''Robot''} = Inr (script imps asgs [Pass])"
    and p: "program_src ?p1 (ex_scene ''robot'') {''Robot''} = Some (Inr (script imps asgs ?calls))"
    by blast
  from s have "script imps asgs [Pass] = ex_script [Pass]" by (simp add: scene_tree_robot)
  then have "script imps asgs ?calls = ex_script ?calls"
    by (rule script_ex_script)
  with p have "program_src ?p1 (ex_scene ''robot'') {''Robot''} = Some (Inr (ex_script ?calls))"
    by simp
  moreover from emitter_chain_or_cycle [OF g2, of _ _ _ _ "{''a1''}"] tr
  have "program_src ?p2 (ex_scene ''robot'') {''Robot''} = None" by blast
  ultimately show ?thesis by blast
qed

text \<open>
  Counterexample to C8 as stated: on the cycle \<^verbatim>\<open>a1\<close>, \<^verbatim>\<open>a2\<close>, \<^verbatim>\<open>a1\<close>, ... that never
  reaches the end action \<^verbatim>\<open>a3\<close> the emitter does not terminate, and the project of
  the chain \<^verbatim>\<open>a1\<close>, \<^verbatim>\<open>a2\<close> with the action \<^verbatim>\<open>a3\<close> outside of it is emitted without
  an error.
\<close>

theorem cycle_not_terminating:
  "program_src
     (ex_project [ex_action ''a1'' ''robot/move_to'' (Inl FIRST) (Inr ''a2''),
                  ex_action ''a2'' ''robot/move_to'' (Inr ''a1'') (Inr ''a1''),
                  ex_action ''a3'' ''robot/move_to'' (Inr ''a2'') (Inl LAST)])
     (ex_scene ''robot'') {''Robot''} = None \<and>
   program_src
     (ex_project [ex_action ''a1'' ''robot/move_to'' (Inl FIRST) (Inr ''a2''),
                  ex_action ''a2'' ''robot/move_to'' (Inr ''a1'') (Inl LAST),
                  ex_action ''a3'' ''robot/move_to'' (Inr ''a1'') (Inr ''a2'')])
     (ex_scene ''robot'') {''Robot''} = Some (Inr (ex_script [ex_call ''a1'', ex_call ''a2'']))"
proof -
  let ?p = "ex_project [ex_action ''a1'' ''robot/move_to'' (Inl FIRST) (Inr ''a2''),
                  ex_action ''a2'' ''robot/move_to'' (Inr ''a1'') (Inr ''a1''),
                  ex_action ''a3'' ''robot/move_to'' (Inr ''a2'') (Inl LAST)]"
  let ?c = "fst (get_actions_cache ?p)"
  have "snd (get_actions_cache ?p) = (Some ''a1'', Some ''a3'')" by code_simp
  then have g: "get_actions_cache ?p = (?c, Some ''a1'', Some ''a3'')"
    by (simp add: prod_eq_iff)
  have tr: "trapped ?c ''a3'' {''a1'', ''a2''}" by code_simp
  have "program_src ?p (ex_scene ''robot'') {''Robot''} = None"
    by (rule program_src_trapped [OF g tr]) simp
  moreover have "program_src
     (ex_project [ex_action ''a1'' ''robot/move_to'' (Inl FIRST) (Inr ''a2''),
                  ex_action ''a2'' ''robot/move_to'' (Inr ''a1'') (Inl LAST),
                  ex_action ''a3'' ''robot/move_to'' (Inr ''a1'') (Inr ''a2'')])
     (ex_scene ''robot'') {''Robot''} = Some (Inr (ex_script [ex_call ''a1'', ex_call ''a2'']))"
    by code_simp
  ultimately show ?thesis by blast
qed
section \<open>The inputs of the actions\<close>

text \<open>
  The loop of \<^verbatim>\<open>add_logic_to_loop\<close> reads the fields \<^verbatim>\<open>id\<close>, \<^verbatim>\<open>type\<close> and
  \<^verbatim>\<open>outputs\<close> of the cached actions and no other: two caches with the same view give
  the same result, also where the loop does not return.
\<close>

lemma logic_loop_view_Some:
  assumes "logic_loop c l n lp = Some y"
    and "\<forall>k. map_option emitter_view (c k) = map_option emitter_view (c' k)"
  shows "logic_loop c' l n lp = Some y"
proof -
  have "\<forall>c2. (\<forall>k. map_option emitter_view (c k) = map_option emitter_view (c2 k)) \<longrightarrow>
          logic_loop c2 l n lp = Some y"
  proof (rule logic_loop.raw_induct
      [where P = "\<lambda>c1 l n lp y. \<forall>c2. (\<forall>k. map_option emitter_view (c1 k) = map_option emitter_view (c2 k)) \<longrightarrow>
          logic_loop c2 l n lp = Some y", OF _ assms(1)], goal_cases)
    case (1 f c1 l n lp y)
    show ?case
    proof (intro allI impI)
      fix c2
      assume ag: "\<forall>k. map_option emitter_view (c1 k) = map_option emitter_view (c2 k)"
      show "logic_loop c2 l n lp = Some y"
      proof (cases n)
        case (Inl s)
        with 1(2) show ?thesis by (subst logic_loop.simps) simp
      next
        case (Inr k)
        show ?thesis
        proof (cases "c1 k")
          case None
          with ag have "c2 k = None" by (metis map_option_is_None)
          with 1(2) None Inr show ?thesis by (subst logic_loop.simps) simp
        next
          case (Some act)
          with ag obtain act' where a': "c2 k = Some act'" "emitter_view act = emitter_view act'"
            by (metis map_option_eq_Some)
          then have v: "id_action act' = id_action act" "type_action act' = type_action act"
            "outputs act' = outputs act"
            by (simp_all add: emitter_view_def)
          show ?thesis
          proof (cases "\<exists>ob m. split_on CHR ''/'' (type_action act) = [ob, m]")
            case False
            with 1(2) Some Inr a'(1) v show ?thesis
              by (subst logic_loop.simps) (auto split: list.splits)
          next
            case True
            then obtain ob m where sp: "split_on CHR ''/'' (type_action act) = [ob, m]" by blast
            show ?thesis
            proof (cases "id_action act = l")
              case True
              with 1(2) Some Inr a'(1) v sp show ?thesis
                by (subst logic_loop.simps) simp
            next
              case nl: False
              show ?thesis
              proof (cases "outputs act")
                case Nil
                with 1(2) Some Inr a'(1) v sp nl show ?thesis
                  by (subst logic_loop.simps) simp
              next
                case (Cons io ios)
                with 1(2) Some Inr sp nl
                have "f c1 l (default_io io)
                        (append_method_call (if lp = [Pass] then [] else lp) (fix_object_name ob) m []
                           [(None, Attribute (Name ''res'' Load) (id_action act) Load)]) = Some y"
                  by simp
                from 1(1) [OF this] ag
                have "logic_loop c2 l (default_io io)
                        (append_method_call (if lp = [Pass] then [] else lp) (fix_object_name ob) m []
                           [(None, Attribute (Name ''res'' Load) (id_action act) Load)]) = Some y"
                  by blast
                with Inr a'(1) v sp nl Cons show ?thesis
                  by (subst logic_loop.simps) simp
              qed
            qed
          qed
        qed
      qed
    qed
  qed
  with assms(2) show ?thesis by blast
qed

lemma logic_loop_view:
  assumes "\<forall>k. map_option emitter_view (c k) = map_option emitter_view (c' k)"
  shows "logic_loop c l n lp = logic_loop c' l n lp"
proof (cases "logic_loop c l n lp")
  case None
  show ?thesis
  proof (cases "logic_loop c' l n lp")
    case n: None
    with None show ?thesis by simp
  next
    case (Some y)
    from assms have "\<forall>k. map_option emitter_view (c' k) = map_option emitter_view (c k)" by simp
    from logic_loop_view_Some [OF Some this] None show ?thesis by simp
  qed
next
  case (Some y)
  from logic_loop_view_Some [OF Some assms] Some show ?thesis by simp
qed

lemma add_logic_view:
  assumes "get_actions_cache project = (c, Some f, Some l)"
    and "get_actions_cache project' = (c', Some f, Some l)"
    and "\<forall>k. map_option emitter_view (c k) = map_option emitter_view (c' k)"
  shows "add_logic_to_loop tree project = add_logic_to_loop tree project'"
  unfolding add_logic_to_loop_def assms(1,2) prod.case option.case
    logic_loop_view [OF assms(3), of l "Inr f"] ..

text \<open>
  Two projects with the same start and end action, whose cached actions agree in id, type
  and outputs, give the same result of \<^verbatim>\<open>program_src\<close>, whatever the inputs of their
  actions are.
\<close>

lemma program_src_view:
  assumes "get_actions_cache project = (c, Some f, Some l)"
    and "get_actions_cache project' = (c', Some f, Some l)"
    and "\<forall>k. map_option emitter_view (c k) = map_option emitter_view (c' k)"
  shows "program_src project scene built_in_objects = program_src project' scene built_in_objects"
  unfolding program_src_scene_tree add_logic_view [OF assms] ..
section \<open>The round trip\<close>

text \<open>
  A simple path is a chain of the emitter, its calls are accepted by the walk of the
  recoverer when the object names have no space, and the links that the walk builds for
  the ids of the path are the links that the path has.
\<close>

lemma simple_path_chain:
  "simple_path c prev ids \<Longrightarrow> distinct ids \<Longrightarrow> chain c (last ids) ids"
proof (induction c prev ids rule: simple_path.induct)
  case (1 c prev)
  then show ?case by simp
next
  case (2 c prev a)
  then show ?case by (auto split: option.splits)
next
  case (3 c prev a b as)
  from "3.prems"(1) obtain act where act: "c a = Some act" "id_action act = a"
    "outputs act = [ActionIO (Inr b)]" and sp: "simple_path c (Some a) (b # as)"
    by (cases "c a") auto
  from "3.prems"(2) have d: "distinct (b # as)" and "a \<notin> set (b # as)" by simp_all
  moreover have "last (b # as) \<in> set (b # as)" by (rule last_in_set) simp
  ultimately have ne: "a \<noteq> last (b # as)" by metis
  from "3.IH" [OF sp d] have "chain c (last (b # as)) (b # as)" .
  with act ne show ?case by simp
qed

lemma simple_path_links:
  assumes "simple_path c prev ids" and "k \<in> set ids"
  shows "\<exists>act. c k = Some act \<and> id_action act = k \<and>
           inputs act = [ActionIO (pred_io prev ids k)] \<and> outputs act = succ_out True ids k"
  using assms
proof (induction c prev ids rule: simple_path.induct)
  case (1 c prev)
  then show ?case by simp
next
  case (2 c prev a)
  then show ?case by (cases "c a") auto
next
  case (3 c prev a b as)
  from "3.prems"(1) obtain act where act: "c a = Some act" "id_action act = a"
    "inputs act = [ActionIO (case prev of None \<Rightarrow> Inl FIRST | Some p \<Rightarrow> Inr p)]"
    "outputs act = [ActionIO (Inr b)]" and sp: "simple_path c (Some a) (b # as)"
    by (cases "c a") auto
  show ?case
  proof (cases "k = a")
    case True
    with act show ?thesis by simp
  next
    case False
    with "3.prems"(2) have "k \<in> set (b # as)" by simp
    from "3.IH" [OF sp this] False show ?thesis by simp
  qed
qed

lemma calls_of_accepted:
  assumes "calls_of c ids = Some calls"
    and "\<forall>a\<in>set ids. \<exists>act. c a = Some act \<and> id_action act = a"
    and "plain_objects c ids"
  shows "(\<forall>t\<in>set calls. accepted c t) \<and> loop_ids calls = ids"
  using assms
proof (induction ids arbitrary: calls)
  case Nil
  then show ?case by (simp add: loop_ids_def map_filter_simps)
next
  case (Cons a ids)
  from Cons.prems(2) obtain act where act: "c a = Some act" "id_action act = a" by auto
  from Cons.prems(1) act obtain s calls' where s: "action_call act = Some s"
    and cs: "calls_of c ids = Some calls'" "calls = s # calls'"
    by (cases "action_call act"; cases "calls_of c ids") auto
  from s obtain ob m where sp: "split_on CHR ''/'' (type_action act) = [ob, m]"
    and sv: "s = method_call (fix_object_name ob) m []
                   [(None, Attribute (Name ''res'' Load) (id_action act) Load)]"
    by (auto simp: action_call_def split: list.splits)
  from Cons.prems(3) act sp have "CHR '' '' \<notin> set (convert_cc ob)"
    by (simp add: plain_objects_def)
  then have fx: "fix_object_name ob = convert_cc ob" by (simp add: fix_object_name_eq)
  have acc: "accepted c s" by (simp add: sv method_call_def act sp fx)
  have sid: "stmt_action_id s = Some a" by (simp add: sv method_call_def act)
  from Cons.prems(2,3) have "\<forall>a\<in>set ids. \<exists>act. c a = Some act \<and> id_action act = a"
    and "plain_objects c ids"
    by (simp_all add: plain_objects_def)
  from Cons.IH [OF cs(1) this]
  have "(\<forall>t\<in>set calls'. accepted c t) \<and> loop_ids calls' = ids" .
  with acc sid cs(2) show ?case by (simp add: loop_ids_Cons)
qed

lemma plain_calls_of:
  assumes "plain_objects c ids"
  shows "\<exists>calls. calls_of c ids = Some calls"
  using assms
proof (induction ids)
  case Nil
  then show ?case by simp
next
  case (Cons a ids)
  from Cons.prems obtain act ob m where act: "c a = Some act"
    "split_on CHR ''/'' (type_action act) = [ob, m]"
    by (auto simp: plain_objects_def split: option.splits list.splits)
  from Cons.prems have "plain_objects c ids" by (simp add: plain_objects_def)
  from Cons.IH [OF this] obtain calls where "calls_of c ids = Some calls" by blast
  with act show ?case by (simp add: action_call_def)
qed

lemma relink_simple_path:
  assumes "simple_path c None ids" and "distinct ids"
  shows "relink (length ids) 0 ids None c = c"
proof
  fix k
  have r: "relink (length ids) 0 ids None c k =
     (if k \<in> set ids then
        map_option (\<lambda>x. x\<lparr>inputs := [ActionIO (pred_io None ids k)],
                          outputs := succ_out (0 + length ids = length ids) ids k\<rparr>) (c k)
      else if Some k = None \<and> ids \<noteq> [] then
        map_option (\<lambda>x. x\<lparr>outputs := outputs x @ [ActionIO (Inr (hd ids))]\<rparr>) (c k)
      else c k)"
    by (rule relink_closed) (simp_all add: assms(2))
  show "relink (length ids) 0 ids None c k = c k"
  proof (cases "k \<in> set ids")
    case True
    from simple_path_links [OF assms(1) True] obtain act where "c k = Some act"
      "inputs act = [ActionIO (pred_io None ids k)]" "outputs act = succ_out True ids k"
      by blast
    with True show ?thesis unfolding r by simp
  next
    case False
    then show ?thesis unfolding r by simp
  qed
qed

text \<open>
  C1, on the scene of the object \<^verbatim>\<open>my robot\<close> and the chain of two of its actions: the
  emitter returns a program whose loop holds the calls \<^verbatim>\<open>my_robot.move_to(**res.a1)\<close>
  and \<^verbatim>\<open>my_robot.move_to(**res.a2)\<close>, and on this program the recoverer raises the
  exception of a mismatch of object and method. The emitter names the variable by
  \<^verbatim>\<open>fix_object_name\<close>, and line 215 converts the object id into the name of the
  variable by \<^verbatim>\<open>convert_cc\<close> alone, which keeps the space.
\<close>

theorem round_trip_object_id_with_space:
  "map_option (map_sum id (\<lambda>t. (main_loop t, fst (get_logic_from_source t
       (ex_project [ex_action ''a1'' ''my robot/move_to'' (Inl FIRST) (Inr ''a2''),
                    ex_action ''a2'' ''my robot/move_to'' (Inr ''a1'') (Inl LAST)])))))
     (program_src
       (ex_project [ex_action ''a1'' ''my robot/move_to'' (Inl FIRST) (Inr ''a2''),
                    ex_action ''a2'' ''my robot/move_to'' (Inr ''a1'') (Inl LAST)])
       (ex_scene ''my robot'') {''Robot''}) =
   Some (Inr (Some [method_call ''my_robot'' ''move_to'' [] [(None, Attribute (Name ''res'' Load) ''a1'' Load)],
                    method_call ''my_robot'' ''move_to'' [] [(None, Attribute (Name ''res'' Load) ''a2'' Load)]],
              Some (GenerateSourceException
                ''Action type my robot/move_to does not correspond to source, where it is my_robot/move_to.'')))"
  by code_simp
section \<open>The names of the emitted text\<close>

text \<open>
  The tree that \<^verbatim>\<open>program_src\<close> builds for a scene whose names are names of a program
  text: the imports are such imports, and the body of \<^verbatim>\<open>main\<close> is the assignment of
  \<^verbatim>\<open>res\<close>, one annotated assignment for each object of the scene, in order, and the
  loop.
\<close>

lemma import_ok_is_import: "import_ok s \<Longrightarrow> is_import s"
  by (cases s) simp_all

lemma add_import_stmts_ok:
  assumes "\<forall>s\<in>set ss. import_ok s" and "is_identifier c"
  shows "\<forall>s\<in>set (fst (add_import_stmts m c ss d)). import_ok s"
  using assms(1)
proof (induction ss arbitrary: d)
  case Nil
  then show ?case by simp
next
  case (Cons s ss)
  then have ok: "import_ok s" by simp
  then obtain md ns l where s: "s = ImportFrom md ns l" by (cases s) simp_all
  obtain s' d1 where a: "add_import_stmt m c s d = (s', d1)" by (cases "add_import_stmt m c s d")
  with s ok assms(2) have s': "import_ok s'"
    by (auto split: if_splits option.splits)
  from Cons have "\<forall>s\<in>set (fst (add_import_stmts m c ss d1)). import_ok s" by simp
  with a s' show ?case by (auto split: prod.splits)
qed

lemma add_import_script_ok:
  assumes "\<forall>s\<in>set imps. import_ok s" and "\<forall>s\<in>set asgs. is_assign s"
    and "dotted_name m" and "is_identifier c"
  shows "\<exists>imps'. (\<forall>s\<in>set imps'. import_ok s) \<and>
           add_import (script imps asgs [Pass]) m c = script imps' asgs [Pass]"
proof -
  from assms(1) have ii: "\<forall>s\<in>set imps. is_import s" by (simp add: import_ok_is_import)
  obtain imps' d1 where a: "add_import_stmts m c imps False = (imps', d1)"
    by (cases "add_import_stmts m c imps False")
  with add_import_stmts_ok [OF assms(1,4), of m False]
  have i': "\<forall>s\<in>set imps'. import_ok s" by simp
  have r: "add_import_stmts m c (script imps asgs [Pass]) False = (script imps' asgs [Pass], d1)"
    unfolding script_def
    by (simp add: add_import_stmts_append a add_import_stmts_assigns [OF assms(2)])
  show ?thesis
  proof (cases d1)
    case True
    with r i' show ?thesis by (auto simp: add_import_def)
  next
    case False
    have e: "add_import (script imps asgs [Pass]) m c =
            script (ImportFrom (Some m) [import_alias c None] 0 # imps') asgs [Pass]"
      using r False by (simp add: add_import_def script_def)
    have i: "\<forall>s\<in>set (ImportFrom (Some m) [import_alias c None] 0 # imps'). import_ok s"
      using i' assms(3,4) by simp
    from i e show ?thesis by blast
  qed
qed

lemma scene_objects_loop_exact:
  assumes "\<forall>s\<in>set imps. import_ok s" and "\<forall>s\<in>set asgs. is_assign s" and "asgs \<noteq> []"
    and "\<forall>obj\<in>set objs. scene_object_ok built_in_objects obj"
  shows "\<exists>imps'. (\<forall>s\<in>set imps'. import_ok s) \<and>
           scene_objects_loop objs built_in_objects (script imps asgs [Pass]) =
             Inr (script imps'
                    (asgs @ map (\<lambda>obj. object_instance (id_object obj) (type_object obj)) objs)
                    [Pass])"
  using assms
proof (induction objs arbitrary: imps asgs)
  case Nil
  then show ?case by auto
next
  case (Cons obj objs)
  let ?m = "if type_object obj \<in> built_in_objects then ''arcor2.object_types''
            else ''object_types.'' @ convert_cc (type_object obj)"
  from Cons.prems(4) have ok: "scene_object_ok built_in_objects obj"
    and oks: "\<forall>obj\<in>set objs. scene_object_ok built_in_objects obj" by simp_all
  from ok have dm: "dotted_name ?m" and it: "is_identifier (type_object obj)"
    by (simp_all add: scene_object_ok_def)
  from add_import_script_ok [OF Cons.prems(1,2) dm it]
  obtain imps1 where i1: "\<forall>s\<in>set imps1. import_ok s"
    and a1: "add_import (script imps asgs [Pass]) ?m (type_object obj) = script imps1 asgs [Pass]"
    by blast
  from i1 have ii1: "\<forall>s\<in>set imps1. is_import s" by (simp add: import_ok_is_import)
  let ?asgs1 = "asgs @ [object_instance (id_object obj) (type_object obj)]"
  have o1: "object_instance_from_res (script imps1 asgs [Pass]) (id_object obj) (type_object obj) =
              Inr (script imps1 ?asgs1 [Pass])"
    unfolding object_instance_def by (rule object_instance_script [OF ii1 Cons.prems(2,3)])
  have as1: "\<forall>s\<in>set ?asgs1. is_assign s" using Cons.prems(2) by (simp add: object_instance_def)
  have ne1: "?asgs1 \<noteq> []" by simp
  from Cons.IH [OF i1 as1 ne1 oks]
  obtain imps' where "\<forall>s\<in>set imps'. import_ok s"
    "scene_objects_loop objs built_in_objects (script imps1 ?asgs1 [Pass]) =
       Inr (script imps'
              (?asgs1 @ map (\<lambda>obj. object_instance (id_object obj) (type_object obj)) objs) [Pass])"
    by blast
  moreover have "scene_objects_loop (obj # objs) built_in_objects (script imps asgs [Pass]) =
      scene_objects_loop objs built_in_objects (script imps1 ?asgs1 [Pass])"
    using a1 o1 by (cases "type_object obj \<in> built_in_objects") simp_all
  ultimately show ?case by auto
qed

lemma scene_tree_exact:
  assumes "\<forall>obj\<in>set (objects scene). scene_object_ok built_in_objects obj"
  shows "\<exists>imps. (\<forall>s\<in>set imps. import_ok s) \<and>
           scene_tree scene built_in_objects =
             Inr (script imps
                    (Assign [Name ''res'' Store] (Call (Name ''Resources'' Load) [] []) #
                     map (\<lambda>obj. object_instance (id_object obj) (type_object obj)) (objects scene))
                    [Pass])"
proof -
  have i0: "\<forall>s\<in>set [ImportFrom (Some ''resources'') [import_alias ''Resources'' None] 0]. import_ok s"
    by code_simp
  have "\<exists>imps'. (\<forall>s\<in>set imps'. import_ok s) \<and>
           scene_objects_loop (objects scene) built_in_objects
             (script [ImportFrom (Some ''resources'') [import_alias ''Resources'' None] 0]
                [Assign [Name ''res'' Store] (Call (Name ''Resources'' Load) [] [])] [Pass]) =
             Inr (script imps'
                    ([Assign [Name ''res'' Store] (Call (Name ''Resources'' Load) [] [])] @
                     map (\<lambda>obj. object_instance (id_object obj) (type_object obj)) (objects scene))
                    [Pass])"
    by (rule scene_objects_loop_exact [OF i0 _ _ assms]) simp_all
  then show ?thesis by (simp add: scene_tree_def initial_script)
qed

lemma main_body_script:
  assumes "\<forall>s\<in>set imps. is_import s"
  shows "main_body (script imps asgs loop) = Some (asgs @ [While (NameConstant PyTrue) loop []])"
  by (simp add: main_body_def find_function_script [OF assms] get_at_script del: get_at.simps)

lemma split_script_script: "split_script (script imps asgs loop) = Some (imps, asgs, loop)"
  by (simp add: split_script_def script_def entry_guard_def)



lemma chain_tail: "chain c l (a # b # as) \<Longrightarrow> chain c l (b # as)"
  by simp


lemma chain_not_Nil: "chain c l ids \<Longrightarrow> ids \<noteq> []"
  by (cases ids) simp_all

lemma calls_of_length: "calls_of c ids = Some calls \<Longrightarrow> length calls = length ids"
  by (induction ids arbitrary: calls) (auto split: option.splits)




lemma assign_ok_instance:
  "scene_object_ok built_in_objects obj \<Longrightarrow>
   assign_ok (object_instance (id_object obj) (type_object obj))"
  by (simp add: scene_object_ok_def object_instance_def)

lemma assign_ok_res: "assign_ok (Assign [Name ''res'' Store] (Call (Name ''Resources'' Load) [] []))"
  by code_simp

lemma parse_emitted_script:
  assumes "\<forall>s\<in>set imps. import_ok s" and "\<forall>s\<in>set asgs. assign_ok s"
    and "loop \<noteq> []" and "\<forall>s\<in>set loop. call_ok s"
  shows "parse_emitted (script imps asgs loop) = Some (Inr (script imps asgs loop))"
  using assms by (simp add: parse_emitted_def split_script_script list_all_iff)

lemma emitted_names_tree:
  assumes "get_actions_cache project = (c, Some (hd ids), Some l)"
    and "chain c l ids" and "calls_of c ids = Some calls"
    and "\<forall>obj\<in>set (objects scene). scene_object_ok built_in_objects obj"
    and "\<forall>s\<in>set calls. call_ok s"
  shows "\<exists>tree.
            program_src project scene built_in_objects = Some (Inr tree) \<and>
            main_body tree =
              Some (Assign [Name ''res'' Store] (Call (Name ''Resources'' Load) [] []) #
                    map (\<lambda>obj. object_instance (id_object obj) (type_object obj)) (objects scene) @
                    [While (NameConstant PyTrue) calls []]) \<and>
            parse_emitted tree = Some (Inr tree) \<and>
            get_logic_from_text tree project =
              Some (logic_from_loop (length calls) 0 calls c {} None)"
proof -
  let ?asgs = "Assign [Name ''res'' Store] (Call (Name ''Resources'' Load) [] []) #
               map (\<lambda>obj. object_instance (id_object obj) (type_object obj)) (objects scene)"
  from chain_emit [OF assms(2,3), of "[Pass]"]
  have ll: "logic_loop c l (Inr (hd ids)) [Pass] = Some (Inr calls)" by simp
  from scene_tree_exact [OF assms(4)]
  obtain imps where io: "\<forall>s\<in>set imps. import_ok s"
    and t: "scene_tree scene built_in_objects = Inr (script imps ?asgs [Pass])"
    by blast
  from io have ii: "\<forall>s\<in>set imps. is_import s" by (simp add: import_ok_is_import)
  have ao: "\<forall>s\<in>set ?asgs. assign_ok s"
  proof
    fix s assume "s \<in> set ?asgs"
    then consider "s = Assign [Name ''res'' Store] (Call (Name ''Resources'' Load) [] [])"
      | obj where "obj \<in> set (objects scene)" "s = object_instance (id_object obj) (type_object obj)"
      by auto
    then show "assign_ok s"
    proof cases
      case 1
      then show ?thesis by (simp only: assign_ok_res)
    next
      case 2
      from assms(4) 2(1) have "scene_object_ok built_in_objects obj" by blast
      then show ?thesis unfolding 2(2) by (rule assign_ok_instance)
    qed
  qed
  have ia: "\<forall>s\<in>set ?asgs. is_assign s" by (auto simp: object_instance_def)
  let ?tree = "script imps ?asgs calls"
  have p: "program_src project scene built_in_objects = Some (Inr ?tree)"
    by (simp add: program_src_scene_tree t add_logic_script [OF ii ia] assms(1) ll)
  have mb: "main_body ?tree = Some (?asgs @ [While (NameConstant PyTrue) calls []])"
    using ii by (rule main_body_script)
  from chain_not_Nil [OF assms(2)] calls_of_length [OF assms(3)] have ne: "calls \<noteq> []" by auto
  have pe: "parse_emitted ?tree = Some (Inr ?tree)"
    using io ao ne assms(5) by (rule parse_emitted_script)
  have ml: "main_loop ?tree = Some calls" using ii ia by (rule main_loop_script)
  from assms(1) have fc: "fst (get_actions_cache project) = c" by simp
  have w: "get_logic_from_source ?tree project = logic_from_loop (length calls) 0 calls c {} None"
    using get_logic_main_loop [OF ml, of project] by (simp only: fc)
  have gt: "get_logic_from_text ?tree project =
              Some (logic_from_loop (length calls) 0 calls c {} None)"
    by (simp add: get_logic_from_text_def pe w)
  from p mb pe gt show ?thesis by (intro exI [of _ ?tree]) simp
qed




section \<open>The round trip on a simple path\<close>

text \<open>
  The round trip on a simple path whose object names have no space, the names that the
  emitter writes being names of a program text: the emitter returns a program, and the
  recoverer returns on its text without error and leaves the cache as it was, action by
  action.
\<close>

theorem round_trip:
  assumes "get_actions_cache project = (c, Some (hd ids), Some (last ids))"
    and "simple_path c None ids" and "distinct ids" and "plain_objects c ids"
    and "calls_of c ids = Some calls"
    and "\<forall>obj\<in>set (objects scene). scene_object_ok built_in_objects obj"
    and "\<forall>s\<in>set calls. call_ok s"
  shows "\<exists>tree. program_src project scene built_in_objects = Some (Inr tree) \<and>
           get_logic_from_text tree project = Some (None, c)"
proof -
  from simple_path_chain [OF assms(2,3)] have ch: "chain c (last ids) ids" .
  from emitted_names_tree [OF assms(1) ch assms(5,6,7)]
  obtain tree where p: "program_src project scene built_in_objects = Some (Inr tree)"
    and w: "get_logic_from_text tree project =
              Some (logic_from_loop (length calls) 0 calls c {} None)"
    by blast
  from assms(1) have fc: "fst (get_actions_cache project) = c" by simp
  have kd: "\<forall>a\<in>set ids. \<exists>act. c a = Some act \<and> id_action act = a"
    using simple_path_links [OF assms(2)] by blast
  from calls_of_accepted [OF assms(5) kd assms(4)]
  have acc: "\<forall>t\<in>set calls. accepted c t" and li: "loop_ids calls = ids" by simp_all
  have ky: "keyed_by_id c" using keyed_get_actions_cache [of project] by (simp only: fc)
  have ok: "fst (logic_from_loop (length calls) 0 calls c {} None) = None"
    by (rule walk_accepted [OF acc _ _ ky]) (simp_all add: li assms(3))
  from walk_relink [OF ok ky, of None]
  have sn: "snd (logic_from_loop (length calls) 0 calls c {} None) =
              relink (length calls) 0 (loop_ids calls) None c"
    by simp
  from calls_of_length [OF assms(5)] have len: "length calls = length ids" .
  from sn li len relink_simple_path [OF assms(2,3)]
  have "snd (logic_from_loop (length calls) 0 calls c {} None) = c" by simp
  with ok have "logic_from_loop (length calls) 0 calls c {} None = (None, c)"
    by (simp add: prod_eq_iff)
  with w p show ?thesis by simp
qed

text \<open>The round trip on the chain of two actions of the object \<^verbatim>\<open>robot\<close>.\<close>

theorem round_trip_witness:
  "program_src (ex_chain_of ''robot'') (ex_scene ''robot'') {''Robot''} =
     Some (Inr (ex_script_of ''robot'' ''robot'' [ex_call_of ''robot'' ''a1'', ex_call_of ''robot'' ''a2''])) \<and>
   get_logic_from_text
     (ex_script_of ''robot'' ''robot'' [ex_call_of ''robot'' ''a1'', ex_call_of ''robot'' ''a2''])
     (ex_chain_of ''robot'') =
     Some (None, fst (get_actions_cache (ex_chain_of ''robot'')))"
proof -
  let ?p = "ex_chain_of ''robot''"
  let ?k = "[ex_call_of ''robot'' ''a1'', ex_call_of ''robot'' ''a2'']"
  let ?c = "fst (get_actions_cache ?p)"
  have "snd (get_actions_cache ?p) = (Some (hd [''a1'', ''a2'']), Some (last [''a1'', ''a2'']))"
    by code_simp
  then have g: "get_actions_cache ?p = (?c, Some (hd [''a1'', ''a2'']), Some (last [''a1'', ''a2'']))"
    by (simp add: prod_eq_iff)
  have sp: "simple_path ?c None [''a1'', ''a2'']" by code_simp
  have d: "distinct [''a1'', ''a2'']" by simp
  have pl: "plain_objects ?c [''a1'', ''a2'']" by code_simp
  have co: "calls_of ?c [''a1'', ''a2''] = Some ?k" by code_simp
  have sc: "\<forall>obj\<in>set (objects (ex_scene ''robot'')). scene_object_ok {''Robot''} obj"
    by code_simp
  have ck: "\<forall>s\<in>set ?k. call_ok s" by code_simp
  have p: "program_src ?p (ex_scene ''robot'') {''Robot''} =
     Some (Inr (ex_script_of ''robot'' ''robot'' ?k))"
    by code_simp
  from round_trip [OF g sp d pl co sc ck] p
  show ?thesis by auto
qed
end
